theory Spec2Isabelle
  imports Complex_Main
begin

section \<open>The connection pool of lib/client-pool.js\<close>

text \<open>
  A shallow embedding of class \<open>Pool\<close> (lib/client-pool.js). The pool is a record
  of its symbol-keyed fields; every method takes the pool and returns the updated pool
  together with what the call returned or raised. Calls that leave the pool (a handler's
  \<open>onError\<close>, the methods of a \<open>Client\<close>, \<open>emit\<close>, callbacks) are appended to
  the field \<open>effects\<close>, in the order in which the code makes them.

  The class \<open>Client\<close> (lib/core/client.js), \<open>util.parseOrigin\<close> and the code
  behind a handler's \<open>onError\<close> are not part of the file: they are parameters,
  collected in the record \<open>env\<close>. A client's state is a value of an arbitrary type
  \<open>'c\<close>; \<open>client_dispatch\<close> maps it to the next state and may raise, and so may a
  call of \<open>onError\<close> (\<open>call_onError\<close>). Neither calls back into the pool while it
  runs (the notifications \<open>drain\<close>, \<open>connect\<close>, \<open>disconnect\<close> and
  \<open>session\<close> are separate events).
\<close>

subsection \<open>JavaScript values\<close>

datatype error =
    ClientDestroyedError
  | ClientClosedError
  | InvalidArgumentError string
  | TypeError string

text \<open>
  The values that the pool inspects: \<open>connections\<close>, \<open>err\<close>, \<open>cb\<close>, a TLS session,
  \<open>reuseSessions\<close>, \<open>handler.onError\<close>. A finite number is its exact rational
  value; an object other than a function or an error (a Buffer, a plain object) is
  \<open>JObject\<close> with a number that stands for its content.
\<close>

datatype jsval =
    JUndefined
  | JNull
  | JBool bool
  | JNum rat
  | JNaN
  | JInfinity bool
  | JStr string
  | JFunc nat
  | JObject nat
  | JErr error

text \<open>Truthiness, as \<open>if (v)\<close>, \<open>!v\<close>, \<open>v || w\<close> and \<open>v && w\<close> decide it.\<close>

fun truthy :: "jsval \<Rightarrow> bool" where
  "truthy JUndefined = False"
| "truthy JNull = False"
| "truthy (JBool b) = b"
| "truthy (JNum r) = (r \<noteq> 0)"
| "truthy JNaN = False"
| "truthy (JInfinity _) = True"
| "truthy (JStr s) = (s \<noteq> [])"
| "truthy (JFunc _) = True"
| "truthy (JObject _) = True"
| "truthy (JErr _) = True"

text \<open>\<open>typeof v === 'function'\<close>\<close>

fun is_function :: "jsval \<Rightarrow> bool" where
  "is_function (JFunc _) = True"
| "is_function _ = False"

text \<open>\<open>Number.isFinite(v)\<close>: no coercion, true on finite numbers only.\<close>

fun isFinite :: "jsval \<Rightarrow> bool" where
  "isFinite (JNum _) = True"
| "isFinite _ = False"

text \<open>
  \<open>JSON.parse(JSON.stringify(v))\<close> on a property value: a property that is undefined
  or a function is dropped (it reads as undefined afterwards), NaN and the infinities
  become null, an error becomes the empty object, every other value keeps its content.
\<close>

fun json_copy :: "jsval \<Rightarrow> jsval" where
  "json_copy JUndefined = JUndefined"
| "json_copy (JFunc _) = JUndefined"
| "json_copy JNaN = JNull"
| "json_copy (JInfinity _) = JNull"
| "json_copy (JErr _) = JObject 0"
| "json_copy v = v"

subsection \<open>Requests, handlers, options\<close>

type_synonym opts = string

record handler =
  hid :: nat
  onError :: jsval

type_synonym item = "opts \<times> handler"

text \<open>
  The property \<open>tls\<close> of the options is absent (or falsy: \<open>None\<close>) or an object, of
  which the pool reads \<open>reuseSessions\<close> and \<open>session\<close>.
\<close>

record tlsopts =
  reuseSessions :: jsval
  session :: jsval
  tls_rest :: string

record options =
  tls :: "tlsopts option"
  rest :: string

definition json_options :: "options \<Rightarrow> options" where
  "json_options options =
     options\<lparr>tls := map_option
       (\<lambda>t. t\<lparr>reuseSessions := json_copy (reuseSessions t), session := json_copy (session t)\<rparr>)
       (tls options)\<rparr>"

subsection \<open>What leaves the pool\<close>

datatype effect =
    HandlerOnError handler jsval
  | ClientNew string options
  | ClientDispatch nat opts handler
  | ClientClose nat
  | ClientDestroy nat jsval
  | PoolEmit string
  | ThenCallback nat jsval
  | ThenResolve nat
  | CallCallback jsval "jsval list"

text \<open>What a call gives back: a value, a promise (by its number), or an exception.\<close>

datatype ret =
    RetUndefined
  | RetPromise nat
  | RetRejected jsval
  | Raised jsval

subsection \<open>The client and the handlers, parameters\<close>

text \<open>
  \<open>call_onError env handler err\<close> is what the call \<open>handler.onError(err)\<close> raises,
  for a handler whose \<open>onError\<close> is a function: \<open>None\<close> when it returns.
\<close>

record 'c env =
  parseOrigin :: "string \<Rightarrow> jsval + string"
  newClient :: "string \<Rightarrow> options \<Rightarrow> jsval + 'c"
  client_busy :: "'c \<Rightarrow> bool"
  client_pending :: "'c \<Rightarrow> int"
  client_running :: "'c \<Rightarrow> int"
  client_size :: "'c \<Rightarrow> int"
  client_dispatch :: "'c \<Rightarrow> opts \<Rightarrow> handler \<Rightarrow> 'c \<times> jsval option"
  call_onError :: "handler \<Rightarrow> jsval \<Rightarrow> jsval option"

text \<open>A client of the pool: its state and the notifications the pool listens to.\<close>

record 'c client =
  cstate :: 'c
  listeners :: "string list"

subsection \<open>The pool\<close>

text \<open>
  \<open>kQueue\<close> is a \<open>FixedQueue\<close> (lib/node/fixed-queue.js, not part of the file).
  Modelled from the spec: a FIFO, \<open>push\<close> appends at the tail, \<open>shift\<close> removes
  the head and gives null on the empty queue, \<open>isEmpty\<close> tests for no entries.
  \<open>kConnections\<close> is null (\<open>None\<close>) or a number. Promises are numbered;
  \<open>nextPromise\<close> is the next free number and \<open>closeWired\<close> says that the promise
  behind \<open>kClosedPromise\<close> has been tied to the clients' own \<open>close()\<close>.
\<close>

record 'c pool =
  kConnections :: "rat option"
  kUrl :: string
  kOptions :: options
  kQueue :: "item list"
  kClosedPromise :: "nat option"
  kClosedResolve :: "nat option"
  kDestroyed :: bool
  kClients :: "'c client list"
  kNeedDrain :: bool
  kPending :: int
  kConnected :: int
  kTLSSession :: jsval
  effects :: "effect list"
  nextPromise :: nat
  closeWired :: bool

definition emit :: "effect list \<Rightarrow> 'c pool \<Rightarrow> 'c pool" where
  "emit es p = p\<lparr>effects := effects p @ es\<rparr>"

text \<open>\<open>constructor (origin, { connections, ...options } = {})\<close>\<close>

definition constructor :: "'c env \<Rightarrow> string \<Rightarrow> jsval \<Rightarrow> options \<Rightarrow> jsval + 'c pool" where
  "constructor env origin connections options =
     (if connections \<noteq> JUndefined \<and> connections \<noteq> JNull \<and>
         (\<not> isFinite connections \<or> (case connections of JNum r \<Rightarrow> r < 0 | _ \<Rightarrow> False))
      then Inl (JErr (InvalidArgumentError ''invalid connections''))
      else
        (case parseOrigin env origin of
           Inl e \<Rightarrow> Inl e
         | Inr u \<Rightarrow> Inr
            \<lparr> kConnections = (case connections of JNum r \<Rightarrow> if r \<noteq> 0 then Some r else None
                                | _ \<Rightarrow> None),
              kUrl = u,
              kOptions = json_options options,
              kQueue = [],
              kClosedPromise = None,
              kClosedResolve = None,
              kDestroyed = False,
              kClients = [],
              kNeedDrain = False,
              kPending = 0,
              kConnected = 0,
              kTLSSession = JUndefined,
              effects = [],
              nextPromise = 0,
              closeWired = False \<rparr>))"

subsection \<open>Getters\<close>

definition url :: "'c pool \<Rightarrow> string" where
  "url p = kUrl p"

definition connected :: "'c pool \<Rightarrow> int" where
  "connected p = kConnected p"

text \<open>The loop of \<open>get busy\<close>: false at the first client that is not busy.\<close>

fun busy_loop :: "'c env \<Rightarrow> 'c client list \<Rightarrow> bool" where
  "busy_loop env [] = True"
| "busy_loop env (c # cs) = (if \<not> client_busy env (cstate c) then False else busy_loop env cs)"

definition busy :: "'c env \<Rightarrow> 'c pool \<Rightarrow> bool" where
  "busy env p =
     (if kPending p > 0 then True
      else if (case kConnections p of None \<Rightarrow> False
               | Some n \<Rightarrow> n \<noteq> 0 \<and> of_nat (length (kClients p)) = n)
      then busy_loop env (kClients p)
      else False)"

fun sum_loop :: "('c \<Rightarrow> int) \<Rightarrow> int \<Rightarrow> 'c client list \<Rightarrow> int" where
  "sum_loop f ret [] = ret"
| "sum_loop f ret (c # cs) = sum_loop f (ret + f (cstate c)) cs"

definition pending :: "'c env \<Rightarrow> 'c pool \<Rightarrow> int" where
  "pending env p = sum_loop (client_pending env) (kPending p) (kClients p)"

definition running :: "'c env \<Rightarrow> 'c pool \<Rightarrow> int" where
  "running env p = sum_loop (client_running env) 0 (kClients p)"

definition size_pool :: "'c env \<Rightarrow> 'c pool \<Rightarrow> int" where
  "size_pool env p = sum_loop (client_size env) (kPending p) (kClients p)"

definition destroyed :: "'c pool \<Rightarrow> bool" where
  "destroyed p = kDestroyed p"

definition closed_pool :: "'c pool \<Rightarrow> bool" where
  "closed_pool p = (kClosedPromise p \<noteq> None)"

subsection \<open>Session cache\<close>

text \<open>
  \<open>addCachedSessionToTLSOptions (pool, options)\<close>, where \<open>options\<close> is the shallow
  copy \<open>{ ...this[kOptions] }\<close>: its \<open>tls\<close>, when there is one, is the very object
  of \<open>this[kOptions].tls\<close>, so the assignment \<open>tls.session = ...\<close> is an assignment
  to the pool's own options too. The result is the object returned and the pool.
\<close>

definition addCachedSessionToTLSOptions :: "'c pool \<Rightarrow> options \<Rightarrow> tlsopts \<times> 'c pool" where
  "addCachedSessionToTLSOptions pool options =
     (let t = (case tls options of
                 None \<Rightarrow> \<lparr>reuseSessions = JUndefined, session = JUndefined, tls_rest = []\<rparr>
               | Some t0 \<Rightarrow> t0)
      in if reuseSessions t = JBool False then (t, pool)
         else if \<not> truthy (session t) \<and> truthy (kTLSSession pool)
         then (let t' = t\<lparr>session := kTLSSession pool\<rparr>
               in (t', case tls options of
                         None \<Rightarrow> pool
                       | Some _ \<Rightarrow> pool\<lparr>kOptions := (kOptions pool)\<lparr>tls := Some t'\<rparr>\<rparr>))
         else (t, pool))"

text \<open>\<open>cacheClientTLSSession (session)\<close>, the listener \<open>kOnTLSSession\<close>\<close>

definition cacheClientTLSSession :: "'c pool \<Rightarrow> jsval \<Rightarrow> 'c pool" where
  "cacheClientTLSSession pool sess =
     (if truthy sess then pool\<lparr>kTLSSession := sess\<rparr> else pool)"

subsection \<open>dispatch\<close>

text \<open>\<open>this[kClients].find(client => !client.busy)\<close>, as the position found.\<close>

fun find_idle :: "'c env \<Rightarrow> 'c client list \<Rightarrow> nat option" where
  "find_idle env [] = None"
| "find_idle env (c # cs) =
     (if \<not> client_busy env (cstate c) then Some 0 else map_option Suc (find_idle env cs))"

text \<open>
  The branch \<open>client.dispatch(opts, handler)\<close> of \<open>dispatch\<close>, for the client at
  position \<open>i\<close>; the second component is the exception, if one was raised.
\<close>

definition dispatch_client :: "'c env \<Rightarrow> 'c pool \<Rightarrow> nat \<Rightarrow> opts \<Rightarrow> handler \<Rightarrow> 'c pool \<times> jsval option" where
  "dispatch_client env p i opts handler =
     (case client_dispatch env (cstate (kClients p ! i)) opts handler of
        (c', r) \<Rightarrow>
          (let p1 = emit [ClientDispatch i opts handler]
                      (p\<lparr>kClients := (kClients p)[i := (kClients p ! i)\<lparr>cstate := c'\<rparr>]\<rparr>)
           in case r of
                Some e \<Rightarrow> (p1, Some e)
              | None \<Rightarrow> (if client_busy env c' \<and> busy env p1 then p1\<lparr>kNeedDrain := True\<rparr> else p1,
                         None)))"

text \<open>The body of the \<open>try\<close> of \<open>dispatch\<close>.\<close>

definition dispatch_try :: "'c env \<Rightarrow> 'c pool \<Rightarrow> opts \<Rightarrow> handler \<Rightarrow> 'c pool \<times> jsval option" where
  "dispatch_try env p opts handler =
     (if kDestroyed p then (p, Some (JErr ClientDestroyedError))
      else if kClosedPromise p \<noteq> None then (p, Some (JErr ClientClosedError))
      else
        (case find_idle env (kClients p) of
           Some i \<Rightarrow> dispatch_client env p i opts handler
         | None \<Rightarrow>
             if (case kConnections p of None \<Rightarrow> True
                 | Some n \<Rightarrow> n = 0 \<or> of_nat (length (kClients p)) < n)
             then
               (case addCachedSessionToTLSOptions p (kOptions p) of
                  (t, p1) \<Rightarrow>
                    (let options = (kOptions p)\<lparr>tls := Some t\<rparr>
                     in case newClient env (kUrl p1) options of
                          Inl e \<Rightarrow> (p1, Some e)
                        | Inr c \<Rightarrow>
                            (let ls = [''drain'', ''connect'', ''disconnect''] @
                                   (if (case tls options of
                                          None \<Rightarrow> True
                                        | Some t' \<Rightarrow> reuseSessions t' \<noteq> JBool False \<and>
                                                    \<not> truthy (session t'))
                                    then [''session''] else []);
                                 p2 = emit [ClientNew (kUrl p1) options]
                                        (p1\<lparr>kClients := kClients p1 @
                                                [\<lparr>cstate = c, listeners = ls\<rparr>]\<rparr>)
                             in dispatch_client env p2 (length (kClients p1)) opts handler)))
             else (p\<lparr>kNeedDrain := True,
                     kQueue := kQueue p @ [(opts, handler)],
                     kPending := kPending p + 1\<rparr>, None)))"

text \<open>\<open>dispatch (opts, handler)\<close>: the \<open>try\<close> and its \<open>catch\<close>.\<close>

definition dispatch :: "'c env \<Rightarrow> 'c pool \<Rightarrow> opts \<Rightarrow> handler \<Rightarrow> 'c pool \<times> ret" where
  "dispatch env p opts handler =
     (case dispatch_try env p opts handler of
        (p', None) \<Rightarrow> (p', RetUndefined)
      | (p', Some err) \<Rightarrow>
          if \<not> is_function (onError handler)
          then (p', Raised (JErr (InvalidArgumentError ''invalid onError method'')))
          else (emit [HandlerOnError handler err] p',
                case call_onError env handler err of
                  None \<Rightarrow> RetUndefined
                | Some e \<Rightarrow> Raised e))"

subsection \<open>Notifications of a client\<close>

text \<open>
  \<open>onDrain\<close>, called with \<open>this\<close> the client at position \<open>i\<close>. The first loop:
  each turn removes the head of the queue, so the queue is the measure.
\<close>

function onDrain_loop :: "'c env \<Rightarrow> nat \<Rightarrow> 'c pool \<Rightarrow> 'c pool \<times> jsval option" where
  "onDrain_loop env i p =
     (if \<not> client_busy env (cstate (kClients p ! i)) then
        (case kQueue p of
           [] \<Rightarrow> (p, None)
         | item # q \<Rightarrow>
             (case client_dispatch env (cstate (kClients p ! i)) (fst item) (snd item) of
                (c', r) \<Rightarrow>
                  (case r of
                     Some e \<Rightarrow>
                       (emit [ClientDispatch i (fst item) (snd item)]
                          (p\<lparr>kQueue := q, kPending := kPending p - 1,
                             kClients := (kClients p)[i := (kClients p ! i)\<lparr>cstate := c'\<rparr>]\<rparr>),
                        Some e)
                   | None \<Rightarrow>
                       onDrain_loop env i
                         (emit [ClientDispatch i (fst item) (snd item)]
                            (p\<lparr>kQueue := q, kPending := kPending p - 1,
                               kClients := (kClients p)[i := (kClients p ! i)\<lparr>cstate := c'\<rparr>]\<rparr>)))))
      else (p, None))"
  by pat_completeness auto
termination
  by (relation "measure (\<lambda>(env, i, p). length (kQueue p))") (auto simp: emit_def)

definition onDrain :: "'c env \<Rightarrow> nat \<Rightarrow> 'c pool \<Rightarrow> 'c pool \<times> ret" where
  "onDrain env i p =
     (case onDrain_loop env i p of
        (p1, Some e) \<Rightarrow> (p1, Raised e)
      | (p1, None) \<Rightarrow>
          (let p2 = (if kNeedDrain p1 \<and> \<not> client_busy env (cstate (kClients p1 ! i))
                     then emit [PoolEmit ''drain''] (p1\<lparr>kNeedDrain := False\<rparr>)
                     else p1);
               p3 = (case kClosedResolve p2 of
                       None \<Rightarrow> p2
                     | Some pr \<Rightarrow>
                         if kQueue p2 = []
                         then emit (map ClientClose [0 ..< length (kClients p2)] @ [ThenResolve pr])
                                (p2\<lparr>closeWired := True\<rparr>)
                         else p2)
           in (p3, RetUndefined)))"

definition onConnect :: "nat \<Rightarrow> 'c pool \<Rightarrow> 'c pool" where
  "onConnect i p = emit [PoolEmit ''connect''] (p\<lparr>kConnected := kConnected p + 1\<rparr>)"

definition onDisconnect :: "nat \<Rightarrow> jsval \<Rightarrow> 'c pool \<Rightarrow> 'c pool" where
  "onDisconnect i err p = emit [PoolEmit ''disconnect''] (p\<lparr>kConnected := kConnected p - 1\<rparr>)"

subsection \<open>close and destroy\<close>

text \<open>\<open>cb(...)\<close> in a \<open>catch\<close>: a call of a value that is not a function raises.\<close>

definition call_cb :: "jsval \<Rightarrow> jsval list \<Rightarrow> 'c pool \<Rightarrow> 'c pool \<times> ret" where
  "call_cb cb args p =
     (if is_function cb then (emit [CallCallback cb args] p, RetUndefined)
      else (p, Raised (JErr (TypeError ''cb is not a function''))))"

text \<open>
  \<open>close (cb)\<close>. The promise made by \<open>Promise.all\<close> or \<open>new Promise\<close> takes the
  number \<open>nextPromise\<close>, the one made by \<open>.then\<close> the next number. The body of that
  \<open>.then\<close> runs later, as \<open>closedPromiseThen\<close>.
\<close>

definition close :: "'c pool \<Rightarrow> jsval \<Rightarrow> 'c pool \<times> ret" where
  "close p cb =
     (if kDestroyed p then
        (if truthy cb then call_cb cb [JErr ClientDestroyedError] p
         else (p, RetRejected (JErr ClientDestroyedError)))
      else
        (case (case kClosedPromise p of
                 Some pr \<Rightarrow> (p, pr)
               | None \<Rightarrow>
                   (let p0 = (if kQueue p = []
                              then emit (map ClientClose [0 ..< length (kClients p)])
                                     (p\<lparr>closeWired := True\<rparr>)
                              else p\<lparr>kClosedResolve := Some (nextPromise p)\<rparr>)
                    in (p0\<lparr>kClosedPromise := Some (Suc (nextPromise p)),
                           nextPromise := nextPromise p + 2\<rparr>, Suc (nextPromise p)))) of
           (p1, pr) \<Rightarrow>
             if truthy cb then (emit [ThenCallback pr cb] p1, RetUndefined)
             else (p1, RetPromise pr)))"

text \<open>
  The callback \<open>() => { this[kDestroyed] = true }\<close> chained in \<open>close\<close>: it can run
  once the promise before it has been tied to the clients' \<open>close()\<close>.
\<close>

definition closedPromiseThen :: "'c pool \<Rightarrow> 'c pool" where
  "closedPromiseThen p =
     (if kClosedPromise p \<noteq> None \<and> closeWired p then p\<lparr>kDestroyed := True\<rparr> else p)"

text \<open>
  The loop of \<open>destroy\<close>. The call \<open>item.handler.onError(err)\<close> raises when
  \<open>onError\<close> is no function, and when \<open>onError\<close> itself raises; either ends the
  loop, and \<open>destroy\<close>, at once.
\<close>

function destroy_loop :: "'c env \<Rightarrow> jsval \<Rightarrow> 'c pool \<Rightarrow> 'c pool \<times> jsval option" where
  "destroy_loop env err p =
     (case kQueue p of
        [] \<Rightarrow> (p, None)
      | item # q \<Rightarrow>
          if is_function (onError (snd item))
          then (case call_onError env (snd item) err of
                  Some e \<Rightarrow> (emit [HandlerOnError (snd item) err] (p\<lparr>kQueue := q\<rparr>), Some e)
                | None \<Rightarrow>
                    destroy_loop env err (emit [HandlerOnError (snd item) err] (p\<lparr>kQueue := q\<rparr>)))
          else (p\<lparr>kQueue := q\<rparr>,
                Some (JErr (TypeError ''item.handler.onError is not a function''))))"
  by pat_completeness auto
termination
  by (relation "measure (\<lambda>(env, err, p). length (kQueue p))") (auto simp: emit_def)

definition destroy :: "'c env \<Rightarrow> 'c pool \<Rightarrow> jsval \<Rightarrow> jsval \<Rightarrow> 'c pool \<times> ret" where
  "destroy env p err cb =
     (let p1 = p\<lparr>kDestroyed := True\<rparr>;
          cb1 = (if is_function err then err else cb);
          err1 = (if is_function err then JNull else err);
          err2 = (if \<not> truthy err1 then JErr ClientDestroyedError else err1)
      in case destroy_loop env err2 p1 of
           (p2, Some e) \<Rightarrow> (p2, Raised e)
         | (p2, None) \<Rightarrow>
             (let pr = nextPromise p2;
                  p3 = emit (map (\<lambda>i. ClientDestroy i err2) [0 ..< length (kClients p2)])
                         (p2\<lparr>nextPromise := Suc pr\<rparr>)
              in if truthy cb1 then (emit [ThenCallback pr cb1] p3, RetUndefined)
                 else (p3, RetPromise pr)))"

subsection \<open>Runs of the pool\<close>

text \<open>
  What can happen to a pool, one event at a time: a call of a method, a notification of
  the client at a position of \<open>kClients\<close>, a change of a client's own state (its
  requests complete, its socket closes), and the callback chained in \<open>close\<close>.
  A notification reaches the pool only through a listener that \<open>dispatch\<close> registered.
\<close>

datatype 'c event =
    EvDispatch opts handler
  | EvClose jsval
  | EvDestroy jsval jsval
  | EvDrain nat
  | EvConnect nat
  | EvDisconnect nat jsval
  | EvSession nat jsval
  | EvClientChange nat 'c
  | EvClosedPromiseThen

definition listens :: "'c pool \<Rightarrow> nat \<Rightarrow> string \<Rightarrow> bool" where
  "listens p i name = (i < length (kClients p) \<and> List.member (listeners (kClients p ! i)) name)"

fun step :: "'c env \<Rightarrow> 'c pool \<Rightarrow> 'c event \<Rightarrow> 'c pool" where
  "step env p (EvDispatch opts handler) = fst (dispatch env p opts handler)"
| "step env p (EvClose cb) = fst (close p cb)"
| "step env p (EvDestroy err cb) = fst (destroy env p err cb)"
| "step env p (EvDrain i) = (if listens p i ''drain'' then fst (onDrain env i p) else p)"
| "step env p (EvConnect i) = (if listens p i ''connect'' then onConnect i p else p)"
| "step env p (EvDisconnect i err) =
     (if listens p i ''disconnect'' then onDisconnect i err p else p)"
| "step env p (EvSession i sess) =
     (if listens p i ''session'' then cacheClientTLSSession p sess else p)"
| "step env p (EvClientChange i c) =
     (if i < length (kClients p)
      then p\<lparr>kClients := (kClients p)[i := (kClients p ! i)\<lparr>cstate := c\<rparr>]\<rparr>
      else p)"
| "step env p EvClosedPromiseThen = closedPromiseThen p"

fun run :: "'c env \<Rightarrow> 'c pool \<Rightarrow> 'c event list \<Rightarrow> 'c pool" where
  "run env p [] = p"
| "run env p (ev # evs) = run env (step env p ev) evs"

subsection \<open>Observations on runs\<close>

text \<open>The requests handed to clients, in order: position of the client, request, handler.\<close>

fun dispatched :: "effect list \<Rightarrow> (nat \<times> opts \<times> handler) list" where
  "dispatched [] = []"
| "dispatched (ClientDispatch i opts h # es) = (i, opts, h) # dispatched es"
| "dispatched (e # es) = dispatched es"

text \<open>The calls of \<open>close\<close> and of \<open>destroy\<close> among the events.\<close>

fun is_close :: "'c event \<Rightarrow> bool" where
  "is_close (EvClose cb) = True"
| "is_close ev = False"

fun is_destroy :: "'c event \<Rightarrow> bool" where
  "is_destroy (EvDestroy err cb) = True"
| "is_destroy ev = False"

text \<open>
  The states of a client that is handed the requests of a list one after the other: the
  state before each hand-over and, last, the state after all of them.
\<close>

fun hand_over :: "'c env \<Rightarrow> 'c \<Rightarrow> item list \<Rightarrow> 'c list" where
  "hand_over env c [] = [c]"
| "hand_over env c (it # its) =
     c # hand_over env (fst (client_dispatch env c (fst it) (snd it))) its"

text \<open>
  How many requests a drain takes from a queue for a client in a given state; a measure
  for the proofs about \<open>onDrain_loop\<close>.
\<close>

fun served :: "'c env \<Rightarrow> 'c \<Rightarrow> item list \<Rightarrow> nat" where
  "served env c [] = 0"
| "served env c (it # its) =
     (if client_busy env c then 0
      else (case snd (client_dispatch env c (fst it) (snd it)) of
              Some e \<Rightarrow> 1
            | None \<Rightarrow> Suc (served env (fst (client_dispatch env c (fst it) (snd it))) its)))"

subsection \<open>A client for the examples\<close>

text \<open>
  A client without pipelining, for the concrete runs below: its state is the number of
  requests it holds, it is busy as soon as it holds one, and it never raises. The
  handlers' \<open>onError\<close> return.
\<close>

definition serial_env :: "nat env" where
  "serial_env =
     \<lparr> parseOrigin = (\<lambda>origin. Inr origin),
       newClient = (\<lambda>u opt. Inr 0),
       client_busy = (\<lambda>n. 1 \<le> n),
       client_pending = (\<lambda>n. 0),
       client_running = (\<lambda>n. int n),
       client_size = (\<lambda>n. int n),
       client_dispatch = (\<lambda>n opts handler. (Suc n, None)),
       call_onError = (\<lambda>handler err. None) \<rparr>"


definition no_options :: options where
  "no_options = \<lparr>tls = None, rest = []\<rparr>"

definition handler_of :: "nat \<Rightarrow> handler" where
  "handler_of n = \<lparr>hid = n, onError = JFunc n\<rparr>"

text \<open>\<open>new Pool(origin, { connections })\<close> with this client; the invalid case aside.\<close>

definition new_pool :: "jsval \<Rightarrow> nat pool" where
  "new_pool connections = projr (constructor serial_env ''http://localhost:3000'' connections no_options)"

text \<open>The pools of the examples, each the outcome of a run from a new pool.\<close>

definition pool_destroyed :: "nat pool" where
  "pool_destroyed = run serial_env (new_pool JUndefined) [EvDestroy JUndefined JUndefined]"

definition pool_closing :: "nat pool" where
  "pool_closing = run serial_env (new_pool JUndefined) [EvClose JUndefined]"

definition pool_one_busy :: "nat pool" where
  "pool_one_busy = run serial_env (new_pool (JNum 1)) [EvDispatch ''r1'' (handler_of 1)]"

definition pool_two_one_busy :: "nat pool" where
  "pool_two_one_busy = run serial_env (new_pool (JNum 2)) [EvDispatch ''r1'' (handler_of 1)]"

definition pool_queued :: "nat pool" where
  "pool_queued = run serial_env (new_pool (JNum 1))
     [EvDispatch ''r1'' (handler_of 1), EvDispatch ''r2'' (handler_of 2)]"

definition pool_with_session :: "nat pool" where
  "pool_with_session = run serial_env (new_pool JUndefined)
     [EvDispatch ''r1'' (handler_of 1), EvSession 0 (JObject 7)]"

definition pool_drainable :: "nat pool" where
  "pool_drainable = run serial_env (new_pool (JNum 1))
     [EvDispatch ''r1'' (handler_of 1), EvDispatch ''r2'' (handler_of 2),
      EvDispatch ''r3'' (handler_of 3), EvClientChange 0 0]"

definition pool_unbounded_busy :: "nat pool" where
  "pool_unbounded_busy = run serial_env (new_pool (JNum 0)) [EvDispatch ''r1'' (handler_of 1)]"

definition pool_unbounded_idle :: "nat pool" where
  "pool_unbounded_idle = run serial_env (new_pool (JNum 0))
     [EvDispatch ''r1'' (handler_of 1), EvDispatch ''r2'' (handler_of 2), EvClientChange 1 0]"

section \<open>Properties\<close>

lemmas eval_defs = new_pool_def constructor_def serial_env_def no_options_def handler_of_def
  json_options_def dispatch_def dispatch_try_def dispatch_client_def
  addCachedSessionToTLSOptions_def cacheClientTLSSession_def emit_def busy_def destroy_def
  close_def call_cb_def closedPromiseThen_def onDrain_def onConnect_def onDisconnect_def
  listens_def pending_def closed_pool_def destroyed_def Let_def
  onDrain_loop.simps destroy_loop.simps

subsection \<open>What each operation leaves unchanged\<close>

lemma destroy_loop_frame:
  "kDestroyed (fst (destroy_loop env err p)) = kDestroyed p \<and>
   kPending (fst (destroy_loop env err p)) = kPending p \<and>
   kClients (fst (destroy_loop env err p)) = kClients p \<and>
   kClosedPromise (fst (destroy_loop env err p)) = kClosedPromise p \<and>
   kClosedResolve (fst (destroy_loop env err p)) = kClosedResolve p \<and>
   kConnections (fst (destroy_loop env err p)) = kConnections p \<and>
   closeWired (fst (destroy_loop env err p)) = closeWired p \<and>
   nextPromise (fst (destroy_loop env err p)) = nextPromise p \<and>
   kTLSSession (fst (destroy_loop env err p)) = kTLSSession p \<and>
   kOptions (fst (destroy_loop env err p)) = kOptions p"
proof (induction env err p rule: destroy_loop.induct)
  case (1 env err p)
  show ?case
  proof (cases "kQueue p")
    case Nil
    then show ?thesis by simp
  next
    case (Cons item q)
    show ?thesis
    proof (cases "is_function (onError (snd item))")
      case True
      show ?thesis
      proof (cases "call_onError env (snd item) err")
        case None
        with True Cons 1 show ?thesis by (simp add: emit_def)
      next
        case (Some e)
        with True Cons show ?thesis by (simp add: emit_def)
      qed
    next
      case False
      with Cons show ?thesis by simp
    qed
  qed
qed

lemma destroy_loop_all:
  "\<forall>it \<in> set (kQueue p). is_function (onError (snd it)) \<and> call_onError env (snd it) err = None \<Longrightarrow>
   destroy_loop env err p =
     (p\<lparr>kQueue := [], effects := effects p @ map (\<lambda>it. HandlerOnError (snd it) err) (kQueue p)\<rparr>, None)"
proof (induction env err p rule: destroy_loop.induct)
  case (1 env err p)
  show ?case
  proof (cases "kQueue p")
    case Nil
    then show ?thesis by simp
  next
    case (Cons item q)
    with 1 show ?thesis by (simp add: emit_def)
  qed
qed

lemma onDrain_loop_frame:
  "kDestroyed (fst (onDrain_loop env i p)) = kDestroyed p \<and>
   length (kClients (fst (onDrain_loop env i p))) = length (kClients p) \<and>
   kClosedPromise (fst (onDrain_loop env i p)) = kClosedPromise p \<and>
   kClosedResolve (fst (onDrain_loop env i p)) = kClosedResolve p \<and>
   kConnections (fst (onDrain_loop env i p)) = kConnections p \<and>
   closeWired (fst (onDrain_loop env i p)) = closeWired p \<and>
   nextPromise (fst (onDrain_loop env i p)) = nextPromise p \<and>
   kTLSSession (fst (onDrain_loop env i p)) = kTLSSession p \<and>
   kNeedDrain (fst (onDrain_loop env i p)) = kNeedDrain p \<and>
   kOptions (fst (onDrain_loop env i p)) = kOptions p"
proof (induction env i p rule: onDrain_loop.induct)
  case (1 env i p)
  show ?case
  proof (cases "client_busy env (cstate (kClients p ! i))")
    case True
    then show ?thesis by simp
  next
    case nb: False
    show ?thesis
    proof (cases "kQueue p")
      case Nil
      with nb show ?thesis by simp
    next
      case (Cons item q)
      obtain c' r where cd: "client_dispatch env (cstate (kClients p ! i)) (fst item) (snd item) = (c', r)"
        by (cases "client_dispatch env (cstate (kClients p ! i)) (fst item) (snd item)")
      show ?thesis
      proof (cases r)
        case None
        with nb Cons cd 1 show ?thesis by (simp add: emit_def)
      next
        case (Some e)
        with nb Cons cd show ?thesis by (simp add: emit_def)
      qed
    qed
  qed
qed


lemma dispatch_client_frame:
  "kDestroyed (fst (dispatch_client env p i opts h)) = kDestroyed p \<and>
   kClosedPromise (fst (dispatch_client env p i opts h)) = kClosedPromise p \<and>
   kClosedResolve (fst (dispatch_client env p i opts h)) = kClosedResolve p \<and>
   kConnections (fst (dispatch_client env p i opts h)) = kConnections p \<and>
   kQueue (fst (dispatch_client env p i opts h)) = kQueue p \<and>
   kPending (fst (dispatch_client env p i opts h)) = kPending p \<and>
   closeWired (fst (dispatch_client env p i opts h)) = closeWired p \<and>
   nextPromise (fst (dispatch_client env p i opts h)) = nextPromise p \<and>
   kTLSSession (fst (dispatch_client env p i opts h)) = kTLSSession p \<and>
   kOptions (fst (dispatch_client env p i opts h)) = kOptions p \<and>
   length (kClients (fst (dispatch_client env p i opts h))) = length (kClients p) \<and>
   effects (fst (dispatch_client env p i opts h)) = effects p @ [ClientDispatch i opts h]"
  by (simp add: dispatch_client_def emit_def Let_def split: prod.splits option.splits)

lemma addCached_frame:
  "kDestroyed (snd (addCachedSessionToTLSOptions p opt)) = kDestroyed p \<and>
   kClosedPromise (snd (addCachedSessionToTLSOptions p opt)) = kClosedPromise p \<and>
   kClosedResolve (snd (addCachedSessionToTLSOptions p opt)) = kClosedResolve p \<and>
   kConnections (snd (addCachedSessionToTLSOptions p opt)) = kConnections p \<and>
   kQueue (snd (addCachedSessionToTLSOptions p opt)) = kQueue p \<and>
   kPending (snd (addCachedSessionToTLSOptions p opt)) = kPending p \<and>
   closeWired (snd (addCachedSessionToTLSOptions p opt)) = closeWired p \<and>
   nextPromise (snd (addCachedSessionToTLSOptions p opt)) = nextPromise p \<and>
   kTLSSession (snd (addCachedSessionToTLSOptions p opt)) = kTLSSession p \<and>
   kClients (snd (addCachedSessionToTLSOptions p opt)) = kClients p \<and>
   effects (snd (addCachedSessionToTLSOptions p opt)) = effects p"
  by (simp add: addCachedSessionToTLSOptions_def Let_def split: option.splits)

lemma dispatch_try_frame:
  "kDestroyed (fst (dispatch_try env p opts h)) = kDestroyed p \<and>
   kClosedPromise (fst (dispatch_try env p opts h)) = kClosedPromise p \<and>
   kClosedResolve (fst (dispatch_try env p opts h)) = kClosedResolve p \<and>
   kConnections (fst (dispatch_try env p opts h)) = kConnections p \<and>
   closeWired (fst (dispatch_try env p opts h)) = closeWired p \<and>
   nextPromise (fst (dispatch_try env p opts h)) = nextPromise p \<and>
   kTLSSession (fst (dispatch_try env p opts h)) = kTLSSession p"
proof -
  obtain t p1 where a: "addCachedSessionToTLSOptions p (kOptions p) = (t, p1)"
    by (cases "addCachedSessionToTLSOptions p (kOptions p)")
  from addCached_frame [of p "kOptions p"] a
  have f: "kDestroyed p1 = kDestroyed p" "kClosedPromise p1 = kClosedPromise p"
    "kClosedResolve p1 = kClosedResolve p" "kConnections p1 = kConnections p"
    "closeWired p1 = closeWired p" "nextPromise p1 = nextPromise p"
    "kTLSSession p1 = kTLSSession p"
    by simp_all
  show ?thesis
    unfolding dispatch_try_def
    by (simp add: a f dispatch_client_frame emit_def Let_def split: option.splits sum.splits)
qed

lemma dispatch_frame:
  "kDestroyed (fst (dispatch env p opts h)) = kDestroyed p \<and>
   kClosedPromise (fst (dispatch env p opts h)) = kClosedPromise p \<and>
   kClosedResolve (fst (dispatch env p opts h)) = kClosedResolve p \<and>
   kConnections (fst (dispatch env p opts h)) = kConnections p \<and>
   closeWired (fst (dispatch env p opts h)) = closeWired p \<and>
   nextPromise (fst (dispatch env p opts h)) = nextPromise p \<and>
   kTLSSession (fst (dispatch env p opts h)) = kTLSSession p"
  using dispatch_try_frame [of env p opts h]
  by (cases "dispatch_try env p opts h") (simp add: dispatch_def emit_def split: option.splits)

lemma onDrain_frame:
  "kDestroyed (fst (onDrain env i p)) = kDestroyed p \<and>
   kClosedPromise (fst (onDrain env i p)) = kClosedPromise p \<and>
   kClosedResolve (fst (onDrain env i p)) = kClosedResolve p \<and>
   kConnections (fst (onDrain env i p)) = kConnections p \<and>
   nextPromise (fst (onDrain env i p)) = nextPromise p \<and>
   kTLSSession (fst (onDrain env i p)) = kTLSSession p"
  using onDrain_loop_frame [of env i p]
  by (cases "onDrain_loop env i p")
     (simp add: onDrain_def emit_def Let_def split: option.splits)

lemma destroy_frame:
  "kDestroyed (fst (destroy env p err cb)) \<and>
   kClosedPromise (fst (destroy env p err cb)) = kClosedPromise p \<and>
   kClosedResolve (fst (destroy env p err cb)) = kClosedResolve p \<and>
   kConnections (fst (destroy env p err cb)) = kConnections p \<and>
   kPending (fst (destroy env p err cb)) = kPending p \<and>
   kClients (fst (destroy env p err cb)) = kClients p \<and>
   kTLSSession (fst (destroy env p err cb)) = kTLSSession p"
proof -
  let ?e = "if \<not> truthy (if is_function err then JNull else err)
            then JErr ClientDestroyedError else (if is_function err then JNull else err)"
  obtain p2 r where d: "destroy_loop env ?e (p\<lparr>kDestroyed := True\<rparr>) = (p2, r)"
    by (cases "destroy_loop env ?e (p\<lparr>kDestroyed := True\<rparr>)")
  from destroy_loop_frame [of env ?e "p\<lparr>kDestroyed := True\<rparr>"] d
  show ?thesis
    by (simp add: destroy_def emit_def Let_def split: option.splits)
qed

lemma close_frame:
  "kDestroyed (fst (close p cb)) = kDestroyed p \<and>
   kConnections (fst (close p cb)) = kConnections p \<and>
   kQueue (fst (close p cb)) = kQueue p \<and>
   kPending (fst (close p cb)) = kPending p \<and>
   kClients (fst (close p cb)) = kClients p \<and>
   kTLSSession (fst (close p cb)) = kTLSSession p \<and>
   closed_pool (fst (close p cb)) = (closed_pool p \<or> \<not> kDestroyed p) \<and>
   (\<forall>pr. kClosedPromise p = Some pr \<longrightarrow> kClosedPromise (fst (close p cb)) = Some pr)"
  by (simp add: close_def call_cb_def emit_def closed_pool_def Let_def split: option.splits)

lemma step_destroyed: "kDestroyed p \<Longrightarrow> kDestroyed (step env p ev)"
  by (cases ev)
     (simp_all add: dispatch_frame onDrain_frame destroy_frame close_frame onConnect_def
        onDisconnect_def cacheClientTLSSession_def closedPromiseThen_def emit_def)

lemma run_destroyed: "kDestroyed p \<Longrightarrow> kDestroyed (run env p evs)"
  by (induction evs arbitrary: p) (simp_all add: step_destroyed)

lemma step_closedPromise: "kClosedPromise p = Some pr \<Longrightarrow> kClosedPromise (step env p ev) = Some pr"
  by (cases ev)
     (simp_all add: dispatch_frame onDrain_frame destroy_frame close_frame onConnect_def
        onDisconnect_def cacheClientTLSSession_def closedPromiseThen_def emit_def)

lemma run_closedPromise: "kClosedPromise p = Some pr \<Longrightarrow> kClosedPromise (run env p evs) = Some pr"
  by (induction evs arbitrary: p) (simp_all add: step_closedPromise)

text \<open>From here on the equations of the two loops are unfolded by hand.\<close>

declare onDrain_loop.simps [simp del] destroy_loop.simps [simp del]

subsection \<open>The queue and the requests handed to clients\<close>

lemma dispatched_append: "dispatched (es @ fs) = dispatched es @ dispatched fs"
  by (induction es rule: dispatched.induct) simp_all

lemma dispatched_map_ClientDispatch:
  "dispatched (map (\<lambda>it. ClientDispatch i (fst it) (snd it)) q) = map (\<lambda>it. (i, fst it, snd it)) q"
  by (induction q) simp_all

lemma dispatched_map_ClientClose: "dispatched (map ClientClose ns) = []"
  by (induction ns) simp_all

lemma onDrain_loop_fifo:
  "\<exists>k \<le> length (kQueue p).
     kQueue (fst (onDrain_loop env i p)) = drop k (kQueue p) \<and>
     kPending (fst (onDrain_loop env i p)) = kPending p - int k \<and>
     effects (fst (onDrain_loop env i p)) =
       effects p @ map (\<lambda>it. ClientDispatch i (fst it) (snd it)) (take k (kQueue p)) \<and>
     (0 < k \<longrightarrow> \<not> client_busy env (cstate (kClients p ! i))) \<and>
     (snd (onDrain_loop env i p) = None \<longrightarrow>
        client_busy env (cstate (kClients (fst (onDrain_loop env i p)) ! i)) \<or>
        kQueue (fst (onDrain_loop env i p)) = [])"
proof (induction env i p rule: onDrain_loop.induct)
  case (1 env i p)
  show ?case
  proof (cases "client_busy env (cstate (kClients p ! i))")
    case True
    then have "onDrain_loop env i p = (p, None)" by (simp add: onDrain_loop.simps [of env i p])
    with True show ?thesis by (intro exI [of _ 0]) simp
  next
    case nb: False
    show ?thesis
    proof (cases "kQueue p")
      case Nil
      with nb have "onDrain_loop env i p = (p, None)" by (simp add: onDrain_loop.simps [of env i p])
      with Nil show ?thesis by (intro exI [of _ 0]) simp
    next
      case (Cons item q)
      obtain c' r where cd: "client_dispatch env (cstate (kClients p ! i)) (fst item) (snd item) = (c', r)"
        by (cases "client_dispatch env (cstate (kClients p ! i)) (fst item) (snd item)")
      let ?p2 = "emit [ClientDispatch i (fst item) (snd item)]
                   (p\<lparr>kQueue := q, kPending := kPending p - 1,
                      kClients := (kClients p)[i := (kClients p ! i)\<lparr>cstate := c'\<rparr>]\<rparr>)"
      show ?thesis
      proof (cases r)
        case (Some e)
        with nb Cons cd have "onDrain_loop env i p = (?p2, Some e)"
          by (simp add: onDrain_loop.simps [of env i p])
        with nb Cons show ?thesis by (intro exI [of _ 1]) (simp add: emit_def)
      next
        case None
        with nb Cons cd have eq: "onDrain_loop env i p = onDrain_loop env i ?p2"
          by (simp add: onDrain_loop.simps [of env i p])
        let ?r = "onDrain_loop env i ?p2"
        have q2: "kQueue ?p2 = q" "kPending ?p2 = kPending p - 1"
          "effects ?p2 = effects p @ [ClientDispatch i (fst item) (snd item)]"
          by (simp_all add: emit_def)
        from 1 [OF nb Cons cd [symmetric] None]
        obtain k where kk: "k \<le> length (kQueue ?p2) \<and>
          kQueue (fst ?r) = drop k (kQueue ?p2) \<and>
          kPending (fst ?r) = kPending ?p2 - int k \<and>
          effects (fst ?r) =
             effects ?p2 @ map (\<lambda>it. ClientDispatch i (fst it) (snd it)) (take k (kQueue ?p2)) \<and>
          (0 < k \<longrightarrow> \<not> client_busy env (cstate (kClients ?p2 ! i))) \<and>
          (snd ?r = None \<longrightarrow> client_busy env (cstate (kClients (fst ?r) ! i)) \<or> kQueue (fst ?r) = [])"
          by (elim exE) (rule that)
        from kk have k1: "k \<le> length q" by (simp only: q2)
        from kk have k2: "kQueue (fst ?r) = drop k q" by (simp only: q2)
        from kk have k3: "kPending (fst ?r) = kPending p - 1 - int k" by (simp only: q2)
        from kk have k4: "effects (fst ?r) = (effects p @ [ClientDispatch i (fst item) (snd item)]) @
            map (\<lambda>it. ClientDispatch i (fst it) (snd it)) (take k q)" by (simp only: q2)
        from kk have k5: "snd ?r = None \<longrightarrow>
            client_busy env (cstate (kClients (fst ?r) ! i)) \<or> kQueue (fst ?r) = []" by (elim conjE)
        have "Suc k \<le> length (kQueue p) \<and>
           kQueue (fst ?r) = drop (Suc k) (kQueue p) \<and>
           kPending (fst ?r) = kPending p - int (Suc k) \<and>
           effects (fst ?r) =
             effects p @ map (\<lambda>it. ClientDispatch i (fst it) (snd it)) (take (Suc k) (kQueue p)) \<and>
           (0 < Suc k \<longrightarrow> \<not> client_busy env (cstate (kClients p ! i))) \<and>
           (snd ?r = None \<longrightarrow> client_busy env (cstate (kClients (fst ?r) ! i)) \<or> kQueue (fst ?r) = [])"
          using k1 k2 k3 k4 k5 nb by (simp add: Cons)
        then show ?thesis unfolding eq by (rule exI [of _ "Suc k"])
      qed
    qed
  qed
qed

lemma dispatch_try_queue:
  "(kQueue (fst (dispatch_try env p opts h)) = kQueue p \<and>
    kPending (fst (dispatch_try env p opts h)) = kPending p) \<or>
   (kQueue (fst (dispatch_try env p opts h)) = kQueue p @ [(opts, h)] \<and>
    kPending (fst (dispatch_try env p opts h)) = kPending p + 1 \<and>
    snd (dispatch_try env p opts h) = None \<and>
    effects (fst (dispatch_try env p opts h)) = effects p \<and>
    (\<exists>n. kConnections p = Some n \<and> n \<noteq> 0))"
proof -
  obtain t p1 where a: "addCachedSessionToTLSOptions p (kOptions p) = (t, p1)"
    by (cases "addCachedSessionToTLSOptions p (kOptions p)")
  from addCached_frame [of p "kOptions p"] a
  have f: "kQueue p1 = kQueue p" "kPending p1 = kPending p"
    by simp_all
  let ?room = "case kConnections p of None \<Rightarrow> True
               | Some n \<Rightarrow> n = 0 \<or> of_nat (length (kClients p)) < n"
  consider (rejected) "kDestroyed p \<or> kClosedPromise p \<noteq> None"
    | (idle) i where "\<not> kDestroyed p" "kClosedPromise p = None"
        "find_idle env (kClients p) = Some i"
    | (grow) "\<not> kDestroyed p" "kClosedPromise p = None"
        "find_idle env (kClients p) = None" "?room"
    | (enqueue) "\<not> kDestroyed p" "kClosedPromise p = None"
        "find_idle env (kClients p) = None" "\<not> ?room"
    by (cases "find_idle env (kClients p)") blast+
  then show ?thesis
  proof cases
    case rejected
    then have "fst (dispatch_try env p opts h) = p"
      by (auto simp: dispatch_try_def)
    then show ?thesis by simp
  next
    case idle
    then have "dispatch_try env p opts h = dispatch_client env p i opts h"
      by (simp add: dispatch_try_def)
    then show ?thesis by (simp add: dispatch_client_frame)
  next
    case grow
    show ?thesis
    proof (cases "newClient env (kUrl p1) ((kOptions p)\<lparr>tls := Some t\<rparr>)")
      case (Inl e)
      with grow a have "dispatch_try env p opts h = (p1, Some e)"
        by (simp add: dispatch_try_def)
      with f show ?thesis by simp
    next
      case (Inr c)
      with grow a obtain p2 where
        "dispatch_try env p opts h = dispatch_client env p2 (length (kClients p1)) opts h"
        "kQueue p2 = kQueue p1" "kPending p2 = kPending p1"
        by (simp add: dispatch_try_def emit_def Let_def)
      with f show ?thesis by (simp add: dispatch_client_frame)
    qed
  next
    case enqueue
    then have "dispatch_try env p opts h =
        (p\<lparr>kNeedDrain := True, kQueue := kQueue p @ [(opts, h)], kPending := kPending p + 1\<rparr>, None)"
      by (simp add: dispatch_try_def)
    moreover from enqueue have "\<exists>n. kConnections p = Some n \<and> n \<noteq> 0"
      by (cases "kConnections p") auto
    ultimately show ?thesis by simp
  qed
qed

lemma dispatch_queue:
  "(kQueue (fst (dispatch env p opts h)) = kQueue p \<and>
    kPending (fst (dispatch env p opts h)) = kPending p) \<or>
   (kQueue (fst (dispatch env p opts h)) = kQueue p @ [(opts, h)] \<and>
    kPending (fst (dispatch env p opts h)) = kPending p + 1 \<and>
    effects (fst (dispatch env p opts h)) = effects p \<and>
    (\<exists>n. kConnections p = Some n \<and> n \<noteq> 0))"
proof -
  obtain p' r where d: "dispatch_try env p opts h = (p', r)"
    by (cases "dispatch_try env p opts h")
  show ?thesis
  proof (cases r)
    case None
    with d have "fst (dispatch env p opts h) = p'" by (simp add: dispatch_def)
    with dispatch_try_queue [of env p opts h] d show ?thesis by auto
  next
    case (Some e)
    with d have "kQueue (fst (dispatch env p opts h)) = kQueue p'"
      "kPending (fst (dispatch env p opts h)) = kPending p'"
      by (simp_all add: dispatch_def emit_def)
    with dispatch_try_queue [of env p opts h] d Some show ?thesis by auto
  qed
qed

lemma step_closed:
  "closed_pool (step env p ev) = (closed_pool p \<or> (is_close ev \<and> \<not> kDestroyed p))"
proof (cases ev)
  case (EvClose cb)
  with close_frame [of p cb] show ?thesis by simp
qed (simp_all add: closed_pool_def dispatch_frame onDrain_frame destroy_frame onConnect_def
       onDisconnect_def cacheClientTLSSession_def closedPromiseThen_def emit_def)

lemma onDrain_loop_empty: "kQueue p = [] \<Longrightarrow> onDrain_loop env i p = (p, None)"
  by (simp add: onDrain_loop.simps [of env i p])

lemma onDrain_queue:
  "kQueue (fst (onDrain env i p)) = kQueue (fst (onDrain_loop env i p)) \<and>
   kPending (fst (onDrain env i p)) = kPending (fst (onDrain_loop env i p)) \<and>
   kClients (fst (onDrain env i p)) = kClients (fst (onDrain_loop env i p)) \<and>
   dispatched (effects (fst (onDrain env i p))) = dispatched (effects (fst (onDrain_loop env i p))) \<and>
   ((\<forall>e. snd (onDrain env i p) \<noteq> Raised e) = (snd (onDrain_loop env i p) = None))"
  by (cases "onDrain_loop env i p")
     (auto simp: onDrain_def emit_def Let_def dispatched_append dispatched_map_ClientClose
        split: option.splits)

lemma destroy_empty: "kQueue p = [] \<Longrightarrow> kQueue (fst (destroy env p err cb)) = []"
  by (simp add: destroy_def Let_def emit_def destroy_loop.simps [of _ _ "p\<lparr>kDestroyed := True\<rparr>"])

lemma step_unbounded:
  assumes "kConnections p = None" "kQueue p = []" "kPending p = 0"
  shows "kConnections (step env p ev) = None \<and> kQueue (step env p ev) = [] \<and>
         kPending (step env p ev) = 0"
proof (cases ev)
  case (EvDispatch opts h)
  with assms dispatch_queue [of env p opts h] dispatch_frame [of env p opts h]
  show ?thesis by auto
next
  case (EvClose cb)
  with assms close_frame [of p cb] show ?thesis by simp
next
  case (EvDestroy err cb)
  with assms destroy_frame [of env p err cb] destroy_empty [of p env err cb] show ?thesis by simp
next
  case (EvDrain i)
  with assms onDrain_queue [of env i p] onDrain_frame [of env i p] onDrain_loop_empty [of p env i]
  show ?thesis by simp
qed (use assms in \<open>simp_all add: onConnect_def onDisconnect_def cacheClientTLSSession_def
       closedPromiseThen_def emit_def\<close>)

lemma run_unbounded:
  "kConnections p = None \<Longrightarrow> kQueue p = [] \<Longrightarrow> kPending p = 0 \<Longrightarrow>
   kConnections (run env p evs) = None \<and> kQueue (run env p evs) = [] \<and>
   kPending (run env p evs) = 0"
proof (induction evs arbitrary: p)
  case Nil
  then show ?case by simp
next
  case (Cons ev evs)
  from step_unbounded [OF Cons.prems, of env ev] Cons.IH [of "step env p ev"]
  show ?case by simp
qed

lemma step_pending_count:
  assumes "kPending p = int (length (kQueue p))" "\<not> is_destroy ev"
  shows "kPending (step env p ev) = int (length (kQueue (step env p ev)))"
proof (cases ev)
  case (EvDispatch opts h)
  with assms dispatch_queue [of env p opts h] show ?thesis by auto
next
  case (EvClose cb)
  with assms close_frame [of p cb] show ?thesis by simp
next
  case (EvDestroy err cb)
  with assms show ?thesis by simp
next
  case (EvDrain i)
  from onDrain_loop_fifo [of p env i] obtain k where
    "k \<le> length (kQueue p)" "kQueue (fst (onDrain_loop env i p)) = drop k (kQueue p)"
    "kPending (fst (onDrain_loop env i p)) = kPending p - int k"
    by (elim exE conjE)
  with EvDrain assms onDrain_queue [of env i p] show ?thesis by simp
qed (use assms in \<open>simp_all add: onConnect_def onDisconnect_def cacheClientTLSSession_def
       closedPromiseThen_def emit_def\<close>)

lemma is_function_truthy: "is_function v \<Longrightarrow> truthy v"
  by (cases v) simp_all

lemma close_live:
  "\<not> kDestroyed p \<Longrightarrow> \<not> truthy cb \<Longrightarrow>
   \<exists>pr. snd (close p cb) = RetPromise pr \<and> kClosedPromise (fst (close p cb)) = Some pr \<and>
        \<not> kDestroyed (fst (close p cb))"
  by (simp add: close_def emit_def Let_def split: option.splits)

lemma close_again:
  "\<not> kDestroyed q \<Longrightarrow> kClosedPromise q = Some pr \<Longrightarrow> \<not> truthy cb \<Longrightarrow>
   close q cb = (q, RetPromise pr)"
  by (simp add: close_def)

lemma close_destroyed:
  "kDestroyed q \<Longrightarrow>
   (\<not> truthy cb \<longrightarrow> close q cb = (q, RetRejected (JErr ClientDestroyedError))) \<and>
   (is_function cb \<longrightarrow>
      close q cb = (emit [CallCallback cb [JErr ClientDestroyedError]] q, RetUndefined))"
  by (auto simp: close_def call_cb_def dest: is_function_truthy)


subsection \<open>The busy getter\<close>

lemma busy_loop_iff: "busy_loop env cs = (\<forall>c \<in> set cs. client_busy env (cstate c))"
  by (induction cs) auto

text \<open>
  C6: in every pool state, \<open>busy\<close> is true if the pending counter is positive;
  otherwise, if the connection limit is set and the number of clients equals it, it is
  true unless some client is not busy; otherwise it is false.
\<close>

theorem busy_computed:
  "busy env p =
     (if kPending p > 0 then True
      else if (\<exists>n. kConnections p = Some n \<and> n \<noteq> 0 \<and> of_nat (length (kClients p)) = n)
      then \<not> (\<exists>c \<in> set (kClients p). \<not> client_busy env (cstate c))
      else False)"
  by (simp add: busy_def busy_loop_iff split: option.splits)

text \<open>
  C6, at concrete pools: a pool of one connection whose only client is busy is busy; a
  new pool is not; a pool of two connections with one busy client is not.
\<close>

theorem busy_computed_witness:
  "busy serial_env pool_one_busy \<and>
   \<not> busy serial_env (new_pool (JNum 1)) \<and>
   \<not> busy serial_env pool_two_one_busy"
  using busy_computed [of serial_env pool_one_busy]
    busy_computed [of serial_env "new_pool (JNum 1)"]
    busy_computed [of serial_env pool_two_one_busy]
  by (simp_all add: pool_one_busy_def pool_two_one_busy_def eval_defs)

subsection \<open>The session cache\<close>

lemma listens_session_step:
  "listens p i name \<Longrightarrow> listens (step env p (EvSession j s)) i name"
  by (simp add: listens_def cacheClientTLSSession_def)

text \<open>
  C4, as the code has it: a session notification from a client that the pool listens to
  overwrites the cache with the ticket, whatever it was before and with no validation,
  when the ticket is truthy; a ticket that is null, undefined or otherwise falsy (the
  empty string) leaves the pool as it is. So after any sequence of such notifications
  the cache holds the last truthy ticket, or what it held before when there was none.
\<close>

theorem session_cached_when_truthy:
  "listens p i ''session'' \<Longrightarrow>
   step env p (EvSession i s) = (if truthy s then p\<lparr>kTLSSession := s\<rparr> else p) \<and>
   kTLSSession (run env p (map (EvSession i) ss)) =
     (if filter truthy ss = [] then kTLSSession p else last (filter truthy ss))"
proof
  assume l: "listens p i ''session''"
  then show "step env p (EvSession i s) = (if truthy s then p\<lparr>kTLSSession := s\<rparr> else p)"
    by (simp add: cacheClientTLSSession_def)
  from l show "kTLSSession (run env p (map (EvSession i) ss)) =
     (if filter truthy ss = [] then kTLSSession p else last (filter truthy ss))"
  proof (induction ss arbitrary: p)
    case Nil
    then show ?case by simp
  next
    case (Cons s ss)
    from Cons.prems have "listens (step env p (EvSession i s)) i ''session''"
      by (rule listens_session_step)
    from Cons.IH [OF this] Cons.prems show ?case
      by (simp add: cacheClientTLSSession_def)
  qed
qed

text \<open>
  C4, at a pool whose first client has reported the ticket 7: ticket 9, then null; and
  the tickets 8, null, 9 and the empty string in a row.
\<close>

theorem session_cached_when_truthy_witness:
  "listens pool_with_session 0 ''session'' \<and>
   kTLSSession pool_with_session = JObject 7 \<and>
   step serial_env pool_with_session (EvSession 0 (JObject 9))
     = pool_with_session\<lparr>kTLSSession := JObject 9\<rparr> \<and>
   step serial_env pool_with_session (EvSession 0 JNull) = pool_with_session \<and>
   kTLSSession (run serial_env pool_with_session
      (map (EvSession 0) [JObject 8, JNull, JObject 9, JStr []])) = JObject 9"
proof -
  have l: "listens pool_with_session 0 ''session''"
    by (simp add: pool_with_session_def eval_defs)
  have k: "kTLSSession pool_with_session = JObject 7"
    by (simp add: pool_with_session_def eval_defs)
  have a: "step serial_env pool_with_session (EvSession 0 (JObject 9))
             = pool_with_session\<lparr>kTLSSession := JObject 9\<rparr>"
    using session_cached_when_truthy [OF l, where s = "JObject 9" and env = serial_env and ss = "[]"]
    by (simp only: truthy.simps if_True)
  have b: "step serial_env pool_with_session (EvSession 0 JNull) = pool_with_session"
    using session_cached_when_truthy [OF l, where s = JNull and env = serial_env and ss = "[]"]
    by (simp only: truthy.simps if_False)
  have c: "kTLSSession (run serial_env pool_with_session
      (map (EvSession 0) [JObject 8, JNull, JObject 9, JStr []])) = JObject 9"
    using session_cached_when_truthy [OF l, where s = JNull and env = serial_env
        and ss = "[JObject 8, JNull, JObject 9, JStr []]", THEN conjunct2]
    by (simp only: truthy.simps filter.simps if_True if_False last.simps list.simps simp_thms)
  from l k a b c show ?thesis by blast
qed

text \<open>
  C4 as stated fails: the first client of a pool is subscribed and has reported the
  ticket 7; a second notification, with the ticket null, does not overwrite the cache.
\<close>

theorem session_null_counterexample:
  "listens pool_with_session 0 ''session'' \<and>
   kTLSSession (step serial_env pool_with_session (EvSession 0 JNull)) \<noteq> JNull \<and>
   kTLSSession (step serial_env pool_with_session (EvSession 0 JNull)) = JObject 7"
  by (simp add: pool_with_session_def eval_defs)

subsection \<open>close, twice and after destroy\<close>

text \<open>
  C8: on a pool that is not destroyed, \<open>close()\<close> returns a promise, and a second
  \<open>close()\<close> made after any events, as long as the pool is not destroyed, returns
  the same promise and changes nothing (no client is closed again). After
  \<open>destroy\<close>, whatever happens next, \<open>close\<close> reports the pool-destroyed error:
  a rejected promise without a callback, a call of the callback with one.
\<close>

theorem close_twice_same_signal:
  "(\<not> kDestroyed p \<and> \<not> truthy cb1 \<and> \<not> truthy cb2 \<longrightarrow>
      (\<exists>pr. snd (close p cb1) = RetPromise pr \<and>
         (\<forall>evs. \<not> kDestroyed (run env (fst (close p cb1)) evs) \<longrightarrow>
            close (run env (fst (close p cb1)) evs) cb2
              = (run env (fst (close p cb1)) evs, RetPromise pr)))) \<and>
   (\<forall>evs. kDestroyed (run env (fst (destroy env p err cb0)) evs) \<and>
      (\<not> truthy cb2 \<longrightarrow>
         close (run env (fst (destroy env p err cb0)) evs) cb2
           = (run env (fst (destroy env p err cb0)) evs, RetRejected (JErr ClientDestroyedError))) \<and>
      (is_function cb2 \<longrightarrow>
         close (run env (fst (destroy env p err cb0)) evs) cb2
           = (emit [CallCallback cb2 [JErr ClientDestroyedError]]
                (run env (fst (destroy env p err cb0)) evs), RetUndefined)))"
proof (intro conjI impI allI)
  assume a: "\<not> kDestroyed p \<and> \<not> truthy cb1 \<and> \<not> truthy cb2"
  then obtain pr where pr: "snd (close p cb1) = RetPromise pr"
    "kClosedPromise (fst (close p cb1)) = Some pr"
    using close_live [of p cb1] by blast
  have "\<forall>evs. \<not> kDestroyed (run env (fst (close p cb1)) evs) \<longrightarrow>
            close (run env (fst (close p cb1)) evs) cb2
              = (run env (fst (close p cb1)) evs, RetPromise pr)"
    using run_closedPromise [OF pr(2), of env] close_again a by blast
  with pr(1) show "\<exists>pr. snd (close p cb1) = RetPromise pr \<and>
         (\<forall>evs. \<not> kDestroyed (run env (fst (close p cb1)) evs) \<longrightarrow>
            close (run env (fst (close p cb1)) evs) cb2
              = (run env (fst (close p cb1)) evs, RetPromise pr))"
    by blast
next
  fix evs
  show d: "kDestroyed (run env (fst (destroy env p err cb0)) evs)"
    using destroy_frame [of env p err cb0] by (simp add: run_destroyed)
  { assume "\<not> truthy cb2"
    with close_destroyed [OF d, of cb2]
    show "close (run env (fst (destroy env p err cb0)) evs) cb2
           = (run env (fst (destroy env p err cb0)) evs, RetRejected (JErr ClientDestroyedError))"
      by blast }
  { assume "is_function cb2"
    with close_destroyed [OF d, of cb2]
    show "close (run env (fst (destroy env p err cb0)) evs) cb2
           = (emit [CallCallback cb2 [JErr ClientDestroyedError]]
                (run env (fst (destroy env p err cb0)) evs), RetUndefined)"
      by blast }
qed

text \<open>
  C8, at a new pool: the first \<open>close()\<close> returns promise 1 and so does the
  second; after \<open>destroy()\<close>, \<open>close()\<close> gives a promise rejected with the
  pool-destroyed error and \<open>close(cb)\<close> calls \<open>cb\<close> with it.
\<close>

theorem close_twice_same_signal_witness:
  "\<not> kDestroyed (new_pool JUndefined) \<and> \<not> truthy JUndefined \<and>
   snd (close (new_pool JUndefined) JUndefined) = RetPromise 1 \<and>
   \<not> kDestroyed pool_closing \<and>
   close pool_closing JUndefined = (pool_closing, RetPromise 1) \<and>
   kDestroyed pool_destroyed \<and>
   close pool_destroyed JUndefined = (pool_destroyed, RetRejected (JErr ClientDestroyedError)) \<and>
   is_function (JFunc 5) \<and>
   close pool_destroyed (JFunc 5)
     = (emit [CallCallback (JFunc 5) [JErr ClientDestroyedError]] pool_destroyed, RetUndefined)"
proof -
  let ?P = "new_pool JUndefined"
  have c: "pool_closing = run serial_env (fst (close ?P JUndefined)) []"
    by (simp add: pool_closing_def)
  have d: "pool_destroyed = run serial_env (fst (destroy serial_env ?P JUndefined JUndefined)) []"
    by (simp add: pool_destroyed_def)
  have a: "\<not> kDestroyed ?P" "\<not> truthy JUndefined" "is_function (JFunc 5)"
    by (simp_all add: eval_defs)
  have b: "snd (close ?P JUndefined) = RetPromise 1" "\<not> kDestroyed pool_closing"
    by (simp_all add: pool_closing_def eval_defs)
  note t = close_twice_same_signal [of ?P JUndefined JUndefined serial_env JUndefined JUndefined]
  from t a obtain pr where pr: "snd (close ?P JUndefined) = RetPromise pr"
    "\<forall>evs. \<not> kDestroyed (run serial_env (fst (close ?P JUndefined)) evs) \<longrightarrow>
       close (run serial_env (fst (close ?P JUndefined)) evs) JUndefined
         = (run serial_env (fst (close ?P JUndefined)) evs, RetPromise pr)"
    by blast
  from pr(1) b(1) have "pr = 1" by simp
  with pr(2) b(2) have e: "close pool_closing JUndefined = (pool_closing, RetPromise 1)"
    unfolding c by blast
  from t have f: "kDestroyed pool_destroyed"
    "close pool_destroyed JUndefined = (pool_destroyed, RetRejected (JErr ClientDestroyedError))"
    unfolding d using a by blast+
  from close_twice_same_signal [of ?P JUndefined "JFunc 5" serial_env JUndefined JUndefined] a
  have g: "close pool_destroyed (JFunc 5)
     = (emit [CallCallback (JFunc 5) [JErr ClientDestroyedError]] pool_destroyed, RetUndefined)"
    unfolding d by blast
  from a b e f g show ?thesis by blast
qed

subsection \<open>The closed getter\<close>

lemma constructor_fresh:
  "constructor env origin connections opt = Inr p0 \<Longrightarrow>
   kClosedPromise p0 = None \<and> kQueue p0 = [] \<and> kPending p0 = 0 \<and> \<not> kDestroyed p0 \<and>
   kClients p0 = [] \<and> kTLSSession p0 = JUndefined"
  by (auto simp: constructor_def split: if_splits sum.splits)

lemma run_closed_iff:
  "closed_pool (run env p evs) =
     (closed_pool p \<or> (\<exists>k<length evs. is_close (evs ! k) \<and> \<not> kDestroyed (run env p (take k evs))))"
proof (induction evs arbitrary: p)
  case Nil
  then show ?case by simp
next
  case (Cons ev evs)
  show ?case
    by (simp add: Cons.IH [of "step env p ev"] step_closed Ex_less_Suc2 disj_assoc)
qed

lemma run_never_closed:
  "kDestroyed p \<Longrightarrow> \<not> closed_pool p \<Longrightarrow> \<not> closed_pool (run env p evs)"
proof (induction evs arbitrary: p)
  case Nil
  then show ?case by simp
next
  case (Cons ev evs)
  from Cons.prems have "kDestroyed (step env p ev)" "\<not> closed_pool (step env p ev)"
    by (simp_all add: step_destroyed step_closed)
  then show ?case using Cons.IH by simp
qed

text \<open>
  C10, as the code has it: in every run from a new pool, \<open>closed\<close> is true exactly
  when \<open>close\<close> has been called at least once at a moment when the pool was not
  destroyed (only such a call makes the completion signal). So after \<open>destroy\<close> on
  a pool whose \<open>closed\<close> is false, \<open>destroyed\<close> is true and \<open>closed\<close> stays
  false whatever happens next, calls of \<open>close\<close> included.
\<close>

theorem closed_iff_close_on_live_pool:
  "constructor env origin connections opt = Inr p0 \<Longrightarrow>
   (closed_pool (run env p0 evs) =
      (\<exists>k<length evs. is_close (evs ! k) \<and> \<not> destroyed (run env p0 (take k evs)))) \<and>
   (\<not> closed_pool (run env p0 evs) \<longrightarrow>
      (\<forall>err cb evs'.
         destroyed (run env (fst (destroy env (run env p0 evs) err cb)) evs') \<and>
         \<not> closed_pool (run env (fst (destroy env (run env p0 evs) err cb)) evs')))"
proof
  assume c: "constructor env origin connections opt = Inr p0"
  then have "\<not> closed_pool p0" by (simp add: constructor_fresh closed_pool_def)
  then show "closed_pool (run env p0 evs) =
      (\<exists>k<length evs. is_close (evs ! k) \<and> \<not> destroyed (run env p0 (take k evs)))"
    by (simp add: run_closed_iff destroyed_def)
  show "\<not> closed_pool (run env p0 evs) \<longrightarrow>
      (\<forall>err cb evs'.
         destroyed (run env (fst (destroy env (run env p0 evs) err cb)) evs') \<and>
         \<not> closed_pool (run env (fst (destroy env (run env p0 evs) err cb)) evs'))"
  proof (intro impI allI)
    fix err cb evs'
    let ?q = "fst (destroy env (run env p0 evs) err cb)"
    assume n: "\<not> closed_pool (run env p0 evs)"
    have d: "kDestroyed ?q" using destroy_frame [of env "run env p0 evs" err cb] by simp
    have "\<not> closed_pool ?q"
      using n destroy_frame [of env "run env p0 evs" err cb] by (simp add: closed_pool_def)
    with d show "destroyed (run env ?q evs') \<and> \<not> closed_pool (run env ?q evs')"
      by (simp add: run_never_closed run_destroyed destroyed_def)
  qed
qed

lemma new_pool_constructed:
  "constructor serial_env ''http://localhost:3000'' JUndefined no_options = Inr (new_pool JUndefined)"
  by (simp add: eval_defs)

text \<open>
  C10, at a new pool: not closed; closed after \<open>close()\<close>; after \<open>destroy()\<close>
  and then \<open>close()\<close>, destroyed and not closed.
\<close>

theorem closed_iff_close_on_live_pool_witness:
  "constructor serial_env ''http://localhost:3000'' JUndefined no_options = Inr (new_pool JUndefined) \<and>
   closed_pool pool_closing \<and>
   \<not> closed_pool (new_pool JUndefined) \<and>
   destroyed (run serial_env pool_destroyed [EvClose JUndefined]) \<and>
   \<not> closed_pool (run serial_env pool_destroyed [EvClose JUndefined])"
proof -
  note t = closed_iff_close_on_live_pool [OF new_pool_constructed]
  have a: "\<not> closed_pool (new_pool JUndefined)"
    using t [of "[]"] by simp
  have "closed_pool (run serial_env (new_pool JUndefined) [EvClose JUndefined]) =
      (\<exists>k<length [EvClose JUndefined :: nat event]. is_close ([EvClose JUndefined :: nat event] ! k) \<and>
          \<not> destroyed (run serial_env (new_pool JUndefined) (take k [EvClose JUndefined])))"
    using t [of "[EvClose JUndefined]"] by blast
  moreover have "\<not> destroyed (new_pool JUndefined)" by (simp add: eval_defs)
  ultimately have b: "closed_pool pool_closing"
    unfolding pool_closing_def by simp
  have "\<not> closed_pool (run serial_env (new_pool JUndefined) []) \<longrightarrow>
      (\<forall>err cb evs'.
         destroyed (run serial_env (fst (destroy serial_env (run serial_env (new_pool JUndefined) []) err cb)) evs') \<and>
         \<not> closed_pool (run serial_env (fst (destroy serial_env (run serial_env (new_pool JUndefined) []) err cb)) evs'))"
    using t [of "[]"] by blast
  with a have "destroyed (run serial_env (fst (destroy serial_env (new_pool JUndefined) JUndefined JUndefined)) [EvClose JUndefined]) \<and>
         \<not> closed_pool (run serial_env (fst (destroy serial_env (new_pool JUndefined) JUndefined JUndefined)) [EvClose JUndefined])"
    unfolding run.simps(1) by blast
  then have c: "destroyed (run serial_env pool_destroyed [EvClose JUndefined]) \<and>
     \<not> closed_pool (run serial_env pool_destroyed [EvClose JUndefined])"
    by (simp add: pool_destroyed_def)
  from new_pool_constructed a b c show ?thesis by blast
qed

text \<open>
  C10 as stated fails: in the run \<open>destroy()\<close>, \<open>close()\<close> from a new pool,
  \<open>close\<close> has been called once and \<open>closed\<close> is false.
\<close>

theorem closed_after_destroy_counterexample:
  "is_close ([EvDestroy JUndefined JUndefined, EvClose JUndefined :: nat event] ! 1) \<and>
   \<not> closed_pool (run serial_env (new_pool JUndefined)
                   [EvDestroy JUndefined JUndefined, EvClose JUndefined])"
  by (simp add: eval_defs)

subsection \<open>destroy and the pending counter\<close>

text \<open>
  What \<open>destroy\<close> does when every queued handler has an \<open>onError\<close> that returns: the queue is
  emptied, each handler gets the error given or, for a falsy one, the pool-destroyed
  error, and the pending counter is left as it was.
\<close>

lemma destroy_flushes:
  assumes "\<forall>it \<in> set (kQueue p). is_function (onError (snd it)) \<and>
             call_onError env (snd it) (if \<not> truthy err then JErr ClientDestroyedError else err) = None"
    "\<not> is_function err"
  shows "kQueue (fst (destroy env p err cb)) = [] \<and>
         kPending (fst (destroy env p err cb)) = kPending p \<and>
         (\<exists>rest. effects (fst (destroy env p err cb)) =
            effects p @ map (\<lambda>it. HandlerOnError (snd it)
                                (if \<not> truthy err then JErr ClientDestroyedError else err)) (kQueue p) @ rest)"
proof -
  let ?e = "if \<not> truthy err then JErr ClientDestroyedError else err"
  from assms(1) have "destroy_loop env ?e (p\<lparr>kDestroyed := True\<rparr>) =
      (p\<lparr>kDestroyed := True, kQueue := [],
         effects := effects p @ map (\<lambda>it. HandlerOnError (snd it) ?e) (kQueue p)\<rparr>, None)"
    using destroy_loop_all [of "p\<lparr>kDestroyed := True\<rparr>" env ?e] by simp
  with assms(2) show ?thesis
    by (simp add: destroy_def emit_def Let_def)
qed

text \<open>
  C1 fails on the code. A pool of one connection holds r1 in its client and r2 in the
  queue; \<open>destroy(err)\<close> empties the queue and passes \<open>err\<close> to the handler of r2,
  but the loop of \<open>destroy\<close> does not lower the pending counter, so \<open>pending\<close>
  minus the clients' pending is still 1.
\<close>

theorem destroy_keeps_pending_count:
  "kQueue pool_queued = [(''r2'', handler_of 2)] \<and>
   kPending pool_queued = 1 \<and>
   kQueue (fst (destroy serial_env pool_queued (JErr (TypeError ''boom'')) JUndefined)) = [] \<and>
   effects (fst (destroy serial_env pool_queued (JErr (TypeError ''boom'')) JUndefined)) =
     effects pool_queued @ [HandlerOnError (handler_of 2) (JErr (TypeError ''boom'')),
                            ClientDestroy 0 (JErr (TypeError ''boom''))] \<and>
   pending serial_env (fst (destroy serial_env pool_queued (JErr (TypeError ''boom'')) JUndefined)) -
     sum_loop (client_pending serial_env) 0
       (kClients (fst (destroy serial_env pool_queued (JErr (TypeError ''boom'')) JUndefined))) = 1"
  by (simp add: pool_queued_def eval_defs)

text \<open>Without \<open>destroy\<close>, the pending counter is the length of the queue.\<close>

lemma run_pending_count:
  "kPending p = int (length (kQueue p)) \<Longrightarrow> \<forall>ev \<in> set evs. \<not> is_destroy ev \<Longrightarrow>
   kPending (run env p evs) = int (length (kQueue (run env p evs)))"
proof (induction evs arbitrary: p)
  case Nil
  then show ?case by simp
next
  case (Cons ev evs)
  from Cons.prems have "kPending (step env p ev) = int (length (kQueue (step env p ev)))"
    by (simp add: step_pending_count)
  with Cons.IH [of "step env p ev"] Cons.prems show ?case by simp
qed

text \<open>
  C2 fails on the code: in the same pool the pending counter equals the length of the
  queue before \<open>destroy\<close>; after it the counter is 1 and the queue is empty.
\<close>

theorem pending_count_stale_after_destroy:
  "kPending pool_queued = int (length (kQueue pool_queued)) \<and>
   kPending (step serial_env pool_queued (EvDestroy JUndefined JUndefined)) = 1 \<and>
   length (kQueue (step serial_env pool_queued (EvDestroy JUndefined JUndefined))) = 0"
  by (simp add: pool_queued_def eval_defs)

subsection \<open>The session listener of a new client\<close>

text \<open>
  What the code does for the \<open>session\<close> listener of a new client: it is registered
  exactly when reuse is not disabled, the caller set no session, and the cache is empty.
\<close>

lemma map_update_same: "(map f xs)[i := f (xs ! i)] = map f xs"
proof (induction xs arbitrary: i)
  case Nil
  show ?case by simp
next
  case (Cons x xs)
  then show ?case by (cases i) simp_all
qed

lemma dispatch_client_listeners:
  "map listeners (kClients (fst (dispatch_client env p i opts h))) = map listeners (kClients p)"
proof -
  obtain c' r where cd: "client_dispatch env (cstate (kClients p ! i)) opts h = (c', r)"
    by (cases "client_dispatch env (cstate (kClients p ! i)) opts h")
  have "kClients (fst (dispatch_client env p i opts h)) =
          (kClients p)[i := (kClients p ! i)\<lparr>cstate := c'\<rparr>]"
    by (cases r) (simp_all add: dispatch_client_def cd emit_def Let_def)
  then show ?thesis
    by (simp add: map_update map_update_same)
qed

lemma dispatch_clients:
  "kClients (fst (dispatch env p opts h)) = kClients (fst (dispatch_try env p opts h))"
  by (cases "dispatch_try env p opts h")
     (simp add: dispatch_def emit_def split: option.splits)

lemma session_listener_iff:
  assumes "\<not> kDestroyed p" "kClosedPromise p = None" "find_idle env (kClients p) = None"
    "case kConnections p of None \<Rightarrow> True | Some n \<Rightarrow> n = 0 \<or> of_nat (length (kClients p)) < n"
    "addCachedSessionToTLSOptions p (kOptions p) = (t, p1)"
    "newClient env (kUrl p1) ((kOptions p)\<lparr>tls := Some t\<rparr>) = Inr c"
  shows "listens (fst (dispatch env p opts h)) (length (kClients p)) ''session'' =
           ((case tls (kOptions p) of
               None \<Rightarrow> True
             | Some t0 \<Rightarrow> reuseSessions t0 \<noteq> JBool False \<and> \<not> truthy (session t0)) \<and>
            \<not> truthy (kTLSSession p))"
proof -
  let ?sub = "reuseSessions t \<noteq> JBool False \<and> \<not> truthy (session t)"
  let ?ls = "[''drain'', ''connect'', ''disconnect''] @ (if ?sub then [''session''] else [])"
  let ?p2 = "emit [ClientNew (kUrl p1) ((kOptions p)\<lparr>tls := Some t\<rparr>)]
               (p1\<lparr>kClients := kClients p1 @ [\<lparr>cstate = c, listeners = ?ls\<rparr>]\<rparr>)"
  from addCached_frame [of p "kOptions p"] assms(5)
  have f: "kClients p1 = kClients p" by simp
  from assms have d: "dispatch_try env p opts h = dispatch_client env ?p2 (length (kClients p1)) opts h"
    by (simp add: dispatch_try_def Let_def)
  have "map listeners (kClients (fst (dispatch env p opts h))) = map listeners (kClients ?p2)"
    by (simp only: dispatch_clients d dispatch_client_listeners)
  also have "\<dots> = map listeners (kClients p) @ [?ls]"
    by (simp add: emit_def f)
  finally have m: "map listeners (kClients (fst (dispatch env p opts h))) =
      map listeners (kClients p) @ [?ls]" .
  from arg_cong [OF m, of length]
  have n: "length (kClients (fst (dispatch env p opts h))) = Suc (length (kClients p))"
    by simp
  have "listeners (kClients (fst (dispatch env p opts h)) ! length (kClients p)) =
        map listeners (kClients (fst (dispatch env p opts h))) ! length (kClients p)"
    using n by simp
  also have "\<dots> = ?ls"
    unfolding m by (simp add: nth_append)
  finally have l: "listeners (kClients (fst (dispatch env p opts h)) ! length (kClients p)) = ?ls" .
  have "listens (fst (dispatch env p opts h)) (length (kClients p)) ''session'' = ?sub"
    unfolding listens_def l using n by (cases ?sub) simp_all
  moreover from assms(5) have "?sub =
      ((case tls (kOptions p) of
               None \<Rightarrow> True
             | Some t0 \<Rightarrow> reuseSessions t0 \<noteq> JBool False \<and> \<not> truthy (session t0)) \<and>
            \<not> truthy (kTLSSession p))"
    by (auto simp: addCachedSessionToTLSOptions_def Let_def split: option.splits if_splits)
  ultimately show ?thesis by simp
qed

text \<open>
  C3 fails on the code. The caller gave no TLS options, the pool has no limit and its
  cache holds the ticket 7 reported by its first client, which is busy. The next
  \<open>dispatch\<close> makes a second client: the ticket is put into its options first, the
  test \<open>!options.tls.session\<close> then fails, and the client gets no \<open>session\<close>
  listener.
\<close>

theorem cached_session_blocks_subscription:
  "tls (kOptions pool_with_session) = None \<and>
   kConnections pool_with_session = None \<and>
   kTLSSession pool_with_session = JObject 7 \<and>
   find_idle serial_env (kClients pool_with_session) = None \<and>
   length (kClients (fst (dispatch serial_env pool_with_session ''r2'' (handler_of 2)))) = 2 \<and>
   listeners (kClients (fst (dispatch serial_env pool_with_session ''r2'' (handler_of 2))) ! 1) =
     [''drain'', ''connect'', ''disconnect''] \<and>
   \<not> listens (fst (dispatch serial_env pool_with_session ''r2'' (handler_of 2))) 1 ''session''"
  by (simp add: pool_with_session_def eval_defs)

subsection \<open>Errors of dispatch\<close>




subsection \<open>A pool made with connections 0\<close>

lemma find_idle_Some_iff:
  "(find_idle env cs = Some i) =
     (i < length cs \<and> \<not> client_busy env (cstate (cs ! i)) \<and>
      (\<forall>j<i. client_busy env (cstate (cs ! j))))"
proof (induction cs arbitrary: i)
  case Nil
  show ?case by simp
next
  case (Cons c cs)
  show ?case
  proof (cases "client_busy env (cstate c)")
    case False
    then show ?thesis by (cases i) auto
  next
    case True
    show ?thesis
    proof (cases i)
      case 0
      with True show ?thesis by simp
    next
      case (Suc i')
      with True Cons [of i'] show ?thesis by (auto simp: All_less_Suc2)
    qed
  qed
qed

lemma find_idle_None_iff:
  "(find_idle env cs = None) = (\<forall>c \<in> set cs. client_busy env (cstate c))"
  by (induction cs) auto

lemma dispatch_client_clients:
  "kClients (fst (dispatch_client env p i opts h)) =
     (kClients p)[i := (kClients p ! i)
        \<lparr>cstate := fst (client_dispatch env (cstate (kClients p ! i)) opts h)\<rparr>]"
proof -
  obtain c' r where cd: "client_dispatch env (cstate (kClients p ! i)) opts h = (c', r)"
    by (cases "client_dispatch env (cstate (kClients p ! i)) opts h")
  show ?thesis
    by (cases r) (simp_all add: dispatch_client_def cd emit_def Let_def)
qed

lemma dispatch_dispatched:
  "dispatched (effects (fst (dispatch env p opts h))) =
   dispatched (effects (fst (dispatch_try env p opts h)))"
  by (cases "dispatch_try env p opts h")
     (simp add: dispatch_def emit_def dispatched_append split: option.splits)

lemma constructor_rejects_iff:
  "(\<exists>e. constructor env origin connections opt = Inl e \<and> e = JErr (InvalidArgumentError ''invalid connections'')) =
   ((connections \<noteq> JUndefined \<and> connections \<noteq> JNull \<and>
     (\<forall>r. connections = JNum r \<longrightarrow> r < 0)) \<or>
    parseOrigin env origin = Inl (JErr (InvalidArgumentError ''invalid connections'')))"
  by (cases connections) (auto simp: constructor_def split: sum.splits)

text \<open>With no limit, the first client that is not busy is given the request.\<close>

lemma dispatch_unbounded_idle:
  assumes "kConnections p = None" "\<not> kDestroyed p" "kClosedPromise p = None"
    and i: "i < length (kClients p)" "\<not> client_busy env (cstate (kClients p ! i))"
      "\<forall>j<i. client_busy env (cstate (kClients p ! j))"
  shows "kClients (fst (dispatch env p opts h)) =
           (kClients p)[i := (kClients p ! i)
              \<lparr>cstate := fst (client_dispatch env (cstate (kClients p ! i)) opts h)\<rparr>] \<and>
         dispatched (effects (fst (dispatch env p opts h))) =
           dispatched (effects p) @ [(i, opts, h)]"
proof -
  from i have "find_idle env (kClients p) = Some i"
    by (simp add: find_idle_Some_iff)
  with assms(2,3) have "dispatch_try env p opts h = dispatch_client env p i opts h"
    by (simp add: dispatch_try_def)
  then show ?thesis
    by (simp add: dispatch_clients dispatch_dispatched dispatch_client_clients
          dispatch_client_frame dispatched_append)
qed

text \<open>With no limit and every client busy, a new client is made and given the request.\<close>

lemma dispatch_unbounded_busy:
  assumes "kConnections p = None" "\<not> kDestroyed p" "kClosedPromise p = None"
    and b: "\<forall>c \<in> set (kClients p). client_busy env (cstate c)"
  shows "case newClient env (kUrl p)
                ((kOptions p)\<lparr>tls := Some (fst (addCachedSessionToTLSOptions p (kOptions p)))\<rparr>) of
           Inl e \<Rightarrow>
             kClients (fst (dispatch env p opts h)) = kClients p \<and>
             effects (fst (dispatch env p opts h)) =
               effects p @ (if is_function (onError h) then [HandlerOnError h e] else [])
         | Inr c \<Rightarrow>
             length (kClients (fst (dispatch env p opts h))) = Suc (length (kClients p)) \<and>
             take (length (kClients p)) (kClients (fst (dispatch env p opts h))) = kClients p \<and>
             cstate (kClients (fst (dispatch env p opts h)) ! length (kClients p)) =
               fst (client_dispatch env c opts h) \<and>
             dispatched (effects (fst (dispatch env p opts h))) =
               dispatched (effects p) @ [(length (kClients p), opts, h)]"
proof -
  obtain t p1 where a: "addCachedSessionToTLSOptions p (kOptions p) = (t, p1)"
    by (cases "addCachedSessionToTLSOptions p (kOptions p)")
  from addCached_frame [of p "kOptions p"] a
  have f: "effects p1 = effects p" "kClients p1 = kClients p" by simp_all
  from a have u: "kUrl p1 = kUrl p"
    by (auto simp: addCachedSessionToTLSOptions_def Let_def split: if_splits option.splits)
  from b have n: "find_idle env (kClients p) = None"
    by (simp add: find_idle_None_iff)
  let ?o = "(kOptions p)\<lparr>tls := Some t\<rparr>"
  show ?thesis
  proof (cases "newClient env (kUrl p) ?o")
    case (Inl e)
    with assms(1-3) n a u have "dispatch_try env p opts h = (p1, Some e)"
      by (simp add: dispatch_try_def)
    then have "kClients (fst (dispatch env p opts h)) = kClients p \<and>
             effects (fst (dispatch env p opts h)) =
               effects p @ (if is_function (onError h) then [HandlerOnError h e] else [])"
      by (simp add: dispatch_def emit_def f)
    with Inl a show ?thesis by simp
  next
    case (Inr c)
    with assms(1-3) n a u obtain ls where
      d: "dispatch_try env p opts h =
            dispatch_client env
              (emit [ClientNew (kUrl p1) ?o]
                 (p1\<lparr>kClients := kClients p1 @ [\<lparr>cstate = c, listeners = ls\<rparr>]\<rparr>))
              (length (kClients p1)) opts h"
      by (simp add: dispatch_try_def Let_def)
    have "length (kClients (fst (dispatch env p opts h))) = Suc (length (kClients p)) \<and>
          take (length (kClients p)) (kClients (fst (dispatch env p opts h))) = kClients p \<and>
          cstate (kClients (fst (dispatch env p opts h)) ! length (kClients p)) =
            fst (client_dispatch env c opts h) \<and>
          dispatched (effects (fst (dispatch env p opts h))) =
            dispatched (effects p) @ [(length (kClients p), opts, h)]"
      by (simp add: dispatch_clients dispatch_dispatched d dispatch_client_clients
            dispatch_client_frame dispatched_append emit_def f)
    with Inr a show ?thesis by simp
  qed
qed

text \<open>
  C9: the constructor accepts \<open>connections: 0\<close> (when the origin parses) and stores
  null for it; in every run from that pool the limit stays null, the queue stays empty
  and the pending counter stays 0. On any pool with a null limit that is neither
  destroyed nor closed, \<open>dispatch\<close> leaves the queue and the pending counter alone:
  the first client that is not busy is handed the request; when every client is busy, a
  new client is made with the pool's options and the TLS options of the session cache,
  appended to the clients and handed the request, unless its constructor raises, and
  then the error goes to \<open>handler.onError\<close> and no client is added.
\<close>

theorem connections_zero_is_unbounded:
  "parseOrigin env origin = Inr u \<Longrightarrow>
   (\<exists>p0. constructor env origin (JNum 0) opt = Inr p0 \<and> kConnections p0 = None \<and>
      (\<forall>evs. kConnections (run env p0 evs) = None \<and>
             kQueue (run env p0 evs) = [] \<and>
             kPending (run env p0 evs) = 0)) \<and>
   (kConnections p = None \<and> \<not> kDestroyed p \<and> kClosedPromise p = None \<longrightarrow>
      kQueue (fst (dispatch env p opts h)) = kQueue p \<and>
      kPending (fst (dispatch env p opts h)) = kPending p \<and>
      (\<forall>i. i < length (kClients p) \<and> \<not> client_busy env (cstate (kClients p ! i)) \<and>
           (\<forall>j<i. client_busy env (cstate (kClients p ! j))) \<longrightarrow>
           kClients (fst (dispatch env p opts h)) =
             (kClients p)[i := (kClients p ! i)
                \<lparr>cstate := fst (client_dispatch env (cstate (kClients p ! i)) opts h)\<rparr>] \<and>
           dispatched (effects (fst (dispatch env p opts h))) =
             dispatched (effects p) @ [(i, opts, h)]) \<and>
      ((\<forall>c \<in> set (kClients p). client_busy env (cstate c)) \<longrightarrow>
         (case newClient env (kUrl p)
                 ((kOptions p)\<lparr>tls := Some (fst (addCachedSessionToTLSOptions p (kOptions p)))\<rparr>) of
            Inl e \<Rightarrow>
              kClients (fst (dispatch env p opts h)) = kClients p \<and>
              effects (fst (dispatch env p opts h)) =
                effects p @ (if is_function (onError h) then [HandlerOnError h e] else [])
          | Inr c \<Rightarrow>
              length (kClients (fst (dispatch env p opts h))) = Suc (length (kClients p)) \<and>
              take (length (kClients p)) (kClients (fst (dispatch env p opts h))) = kClients p \<and>
              cstate (kClients (fst (dispatch env p opts h)) ! length (kClients p)) =
                fst (client_dispatch env c opts h) \<and>
              dispatched (effects (fst (dispatch env p opts h))) =
                dispatched (effects p) @ [(length (kClients p), opts, h)])))"
proof (intro conjI impI allI)
  assume o: "parseOrigin env origin = Inr u"
  then obtain p0 where c: "constructor env origin (JNum 0) opt = Inr p0"
    and k: "kConnections p0 = None" "kQueue p0 = []" "kPending p0 = 0"
    by (simp add: constructor_def)
  from run_unbounded [OF k, of env] c k(1)
  show "\<exists>p0. constructor env origin (JNum 0) opt = Inr p0 \<and> kConnections p0 = None \<and>
      (\<forall>evs. kConnections (run env p0 evs) = None \<and>
             kQueue (run env p0 evs) = [] \<and>
             kPending (run env p0 evs) = 0)"
    by blast
next
  assume a: "kConnections p = None \<and> \<not> kDestroyed p \<and> kClosedPromise p = None"
  with dispatch_queue [of env p opts h]
  show "kQueue (fst (dispatch env p opts h)) = kQueue p"
    "kPending (fst (dispatch env p opts h)) = kPending p"
    by auto
  { fix i
    assume i: "i < length (kClients p) \<and> \<not> client_busy env (cstate (kClients p ! i)) \<and>
           (\<forall>j<i. client_busy env (cstate (kClients p ! j)))"
    from a i dispatch_unbounded_idle [of p i env opts h]
    show "kClients (fst (dispatch env p opts h)) =
             (kClients p)[i := (kClients p ! i)
                \<lparr>cstate := fst (client_dispatch env (cstate (kClients p ! i)) opts h)\<rparr>]"
      "dispatched (effects (fst (dispatch env p opts h))) =
             dispatched (effects p) @ [(i, opts, h)]"
      by blast+ }
  { assume b: "\<forall>c \<in> set (kClients p). client_busy env (cstate c)"
    from a b dispatch_unbounded_busy [of p env opts h]
    show "case newClient env (kUrl p)
                 ((kOptions p)\<lparr>tls := Some (fst (addCachedSessionToTLSOptions p (kOptions p)))\<rparr>) of
            Inl e \<Rightarrow>
              kClients (fst (dispatch env p opts h)) = kClients p \<and>
              effects (fst (dispatch env p opts h)) =
                effects p @ (if is_function (onError h) then [HandlerOnError h e] else [])
          | Inr c \<Rightarrow>
              length (kClients (fst (dispatch env p opts h))) = Suc (length (kClients p)) \<and>
              take (length (kClients p)) (kClients (fst (dispatch env p opts h))) = kClients p \<and>
              cstate (kClients (fst (dispatch env p opts h)) ! length (kClients p)) =
                fst (client_dispatch env c opts h) \<and>
              dispatched (effects (fst (dispatch env p opts h))) =
                dispatched (effects p) @ [(length (kClients p), opts, h)]"
      by blast }
qed

text \<open>
  C9, with the client of the examples: the pool made with \<open>connections: 0\<close> has no
  limit. When its only client is busy, the next request goes to a second, new client and
  nothing is queued; when client 0 is busy and client 1 is not, it goes to client 1.
\<close>

theorem connections_zero_is_unbounded_witness:
  "parseOrigin serial_env ''http://localhost:3000'' = Inr ''http://localhost:3000'' \<and>
   constructor serial_env ''http://localhost:3000'' (JNum 0) no_options = Inr (new_pool (JNum 0)) \<and>
   kConnections (new_pool (JNum 0)) = None \<and>
   kQueue pool_unbounded_busy = [] \<and>
   length (kClients pool_unbounded_busy) = 1 \<and>
   length (kClients (fst (dispatch serial_env pool_unbounded_busy ''r2'' (handler_of 2)))) = 2 \<and>
   dispatched (effects (fst (dispatch serial_env pool_unbounded_busy ''r2'' (handler_of 2)))) =
     dispatched (effects pool_unbounded_busy) @ [(1, ''r2'', handler_of 2)] \<and>
   kQueue (fst (dispatch serial_env pool_unbounded_busy ''r2'' (handler_of 2))) = [] \<and>
   dispatched (effects (fst (dispatch serial_env pool_unbounded_idle ''r3'' (handler_of 3)))) =
     dispatched (effects pool_unbounded_idle) @ [(1, ''r3'', handler_of 3)]"
proof -
  let ?B = pool_unbounded_busy
  let ?I = pool_unbounded_idle
  have o: "parseOrigin serial_env ''http://localhost:3000'' = Inr ''http://localhost:3000''"
    by (simp add: serial_env_def)
  have c: "constructor serial_env ''http://localhost:3000'' (JNum 0) no_options = Inr (new_pool (JNum 0))"
    by (simp add: eval_defs)
  note t = connections_zero_is_unbounded [OF o]
  from t [of no_options] c
  have r: "kConnections (new_pool (JNum 0)) = None \<and>
     (\<forall>evs. kConnections (run serial_env (new_pool (JNum 0)) evs) = None \<and>
            kQueue (run serial_env (new_pool (JNum 0)) evs) = [] \<and>
            kPending (run serial_env (new_pool (JNum 0)) evs) = 0)"
    by auto
  then have b0: "kConnections ?B = None" "kQueue ?B = []" "kConnections ?I = None"
    unfolding pool_unbounded_busy_def pool_unbounded_idle_def by blast+
  have b1: "\<not> kDestroyed ?B" "kClosedPromise ?B = None" "length (kClients ?B) = 1"
    "\<forall>c \<in> set (kClients ?B). client_busy serial_env (cstate c)"
    "kUrl ?B = ''http://localhost:3000''"
    by (simp_all add: pool_unbounded_busy_def eval_defs)
  have n: "newClient serial_env u' o' = Inr 0" for u' o'
    by (simp add: serial_env_def)
  from t [THEN conjunct2, of ?B "''r2''" "handler_of 2"] b0 b1
  have b2: "kQueue (fst (dispatch serial_env ?B ''r2'' (handler_of 2))) = []"
    "length (kClients (fst (dispatch serial_env ?B ''r2'' (handler_of 2)))) = 2"
    "dispatched (effects (fst (dispatch serial_env ?B ''r2'' (handler_of 2)))) =
       dispatched (effects ?B) @ [(1, ''r2'', handler_of 2)]"
    by (simp_all add: n)
  have i1: "\<not> kDestroyed ?I" "kClosedPromise ?I = None"
    "1 < length (kClients ?I) \<and> \<not> client_busy serial_env (cstate (kClients ?I ! 1)) \<and>
      (\<forall>j<1. client_busy serial_env (cstate (kClients ?I ! j)))"
    by (simp_all add: pool_unbounded_idle_def eval_defs)
  from t [THEN conjunct2, of ?I "''r3''" "handler_of 3"] b0 i1
  have i2: "dispatched (effects (fst (dispatch serial_env ?I ''r3'' (handler_of 3)))) =
     dispatched (effects ?I) @ [(1, ''r3'', handler_of 3)]"
    by blast
  from o c r b0 b1 b2 i2 show ?thesis by blast
qed

subsection \<open>The order of service\<close>

lemma hand_over_length: "length (hand_over env c q) = Suc (length q)"
  by (induction q arbitrary: c) simp_all

lemma hand_over_0: "hand_over env c q ! 0 = c"
  by (cases q) simp_all

lemma served_le: "served env c q \<le> length q"
  by (induction q arbitrary: c) (simp_all split: option.splits)

lemma served_idle: "j < served env c q \<Longrightarrow> \<not> client_busy env (hand_over env c q ! j)"
proof (induction q arbitrary: c j)
  case Nil
  then show ?case by simp
next
  case (Cons it q)
  then show ?case
    by (cases j) (auto split: if_splits option.splits)
qed

lemma served_returned:
  "Suc j < served env c q \<Longrightarrow>
   snd (client_dispatch env (hand_over env c q ! j) (fst (q ! j)) (snd (q ! j))) = None"
proof (induction q arbitrary: c j)
  case Nil
  then show ?case by simp
next
  case (Cons it q)
  then show ?case
    by (cases j) (auto split: if_splits option.splits)
qed

text \<open>What the last hand-over of a drain raised, if there was one and it raised.\<close>

lemma served_stop:
  "(0 < served env c q \<and>
    (\<exists>e. snd (client_dispatch env (hand_over env c q ! (served env c q - 1))
              (fst (q ! (served env c q - 1))) (snd (q ! (served env c q - 1)))) = Some e)) \<or>
   client_busy env (hand_over env c q ! served env c q) \<or>
   served env c q = length q"
proof (induction q arbitrary: c)
  case Nil
  then show ?case by simp
next
  case (Cons it q)
  show ?case
  proof (cases "client_busy env c")
    case True
    then show ?thesis by simp
  next
    case nb: False
    show ?thesis
    proof (cases "snd (client_dispatch env c (fst it) (snd it))")
      case (Some e)
      with nb show ?thesis by simp
    next
      case None
      let ?c = "fst (client_dispatch env c (fst it) (snd it))"
      from Cons [of ?c] nb None show ?thesis
        by (cases "served env ?c q") auto
    qed
  qed
qed

lemma onDrain_loop_served:
  "i < length (kClients p) \<Longrightarrow>
   kQueue (fst (onDrain_loop env i p)) =
     drop (served env (cstate (kClients p ! i)) (kQueue p)) (kQueue p) \<and>
   kPending (fst (onDrain_loop env i p)) =
     kPending p - int (served env (cstate (kClients p ! i)) (kQueue p)) \<and>
   effects (fst (onDrain_loop env i p)) =
     effects p @ map (\<lambda>it. ClientDispatch i (fst it) (snd it))
                   (take (served env (cstate (kClients p ! i)) (kQueue p)) (kQueue p)) \<and>
   cstate (kClients (fst (onDrain_loop env i p)) ! i) =
     hand_over env (cstate (kClients p ! i)) (kQueue p) !
       served env (cstate (kClients p ! i)) (kQueue p) \<and>
   snd (onDrain_loop env i p) =
     (if 0 < served env (cstate (kClients p ! i)) (kQueue p)
      then snd (client_dispatch env
                 (hand_over env (cstate (kClients p ! i)) (kQueue p) !
                    (served env (cstate (kClients p ! i)) (kQueue p) - 1))
                 (fst (kQueue p ! (served env (cstate (kClients p ! i)) (kQueue p) - 1)))
                 (snd (kQueue p ! (served env (cstate (kClients p ! i)) (kQueue p) - 1))))
      else None)"
proof (induction env i p rule: onDrain_loop.induct)
  case (1 env i p)
  let ?c = "cstate (kClients p ! i)"
  show ?case
  proof (cases "client_busy env ?c")
    case True
    then have "onDrain_loop env i p = (p, None)" by (simp add: onDrain_loop.simps [of env i p])
    moreover from True have "served env ?c (kQueue p) = 0" by (cases "kQueue p") simp_all
    ultimately show ?thesis by (cases "kQueue p") simp_all
  next
    case nb: False
    show ?thesis
    proof (cases "kQueue p")
      case Nil
      with nb have "onDrain_loop env i p = (p, None)" by (simp add: onDrain_loop.simps [of env i p])
      with Nil show ?thesis by simp
    next
      case (Cons item q)
      obtain c' r where cd: "client_dispatch env ?c (fst item) (snd item) = (c', r)"
        by (cases "client_dispatch env ?c (fst item) (snd item)")
      let ?p2 = "emit [ClientDispatch i (fst item) (snd item)]
                   (p\<lparr>kQueue := q, kPending := kPending p - 1,
                      kClients := (kClients p)[i := (kClients p ! i)\<lparr>cstate := c'\<rparr>]\<rparr>)"
      from "1.prems" have q2: "kQueue ?p2 = q" "kPending ?p2 = kPending p - 1"
        "effects ?p2 = effects p @ [ClientDispatch i (fst item) (snd item)]"
        "cstate (kClients ?p2 ! i) = c'" "i < length (kClients ?p2)"
        by (simp_all add: emit_def)
      show ?thesis
      proof (cases r)
        case (Some e)
        with nb Cons cd have res: "onDrain_loop env i p = (?p2, Some e)"
          by (simp add: onDrain_loop.simps [of env i p])
        from nb cd Some have sv: "served env ?c (item # q) = 1" by simp
        show ?thesis
          unfolding res Cons sv using q2 cd Some by (simp add: hand_over_0)
      next
        case None
        with nb Cons cd have eq: "onDrain_loop env i p = onDrain_loop env i ?p2"
          by (simp add: onDrain_loop.simps [of env i p])
        from nb Cons cd None have s: "served env ?c (item # q) = Suc (served env c' q)" by simp
        note ih = "1.IH" [OF nb Cons cd [symmetric] None q2(5), unfolded q2(1-4)]
        let ?k = "served env c' q"
        from ih have k2: "kQueue (fst (onDrain_loop env i ?p2)) = drop ?k q" by (elim conjE)
        from ih have k3: "kPending (fst (onDrain_loop env i ?p2)) = kPending p - 1 - int ?k"
          by (elim conjE)
        from ih have k4: "effects (fst (onDrain_loop env i ?p2)) =
            (effects p @ [ClientDispatch i (fst item) (snd item)]) @
            map (\<lambda>it. ClientDispatch i (fst it) (snd it)) (take ?k q)" by (elim conjE)
        from ih have k5: "cstate (kClients (fst (onDrain_loop env i ?p2)) ! i) =
            hand_over env c' q ! ?k" by (elim conjE)
        from ih have k6: "snd (onDrain_loop env i ?p2) =
            (if 0 < ?k
             then snd (client_dispatch env (hand_over env c' q ! (?k - 1))
                        (fst (q ! (?k - 1))) (snd (q ! (?k - 1))))
             else None)" by (elim conjE)
        have h: "hand_over env ?c (item # q) = ?c # hand_over env c' q"
          by (simp add: cd)
        have l: "snd (onDrain_loop env i ?p2) =
            snd (client_dispatch env ((?c # hand_over env c' q) ! ?k)
                   (fst ((item # q) ! ?k)) (snd ((item # q) ! ?k)))"
          unfolding k6 using cd None by (cases ?k) simp_all
        show ?thesis
          unfolding Cons unfolding eq s h using k2 k3 k4 k5 l by simp
      qed
    qed
  qed
qed

lemma onDrain_ret:
  "snd (onDrain env i p) =
     (case snd (onDrain_loop env i p) of None \<Rightarrow> RetUndefined | Some e \<Rightarrow> Raised e)"
  by (cases "onDrain_loop env i p")
     (simp add: onDrain_def Let_def split: option.splits)

text \<open>
  C7: \<open>dispatch\<close> enqueues at the tail of the queue only. A \<open>drain\<close> notification
  of a client of the pool removes some number \<open>k\<close> of requests from the head of the
  queue, lowers the pending counter by \<open>k\<close> and hands exactly these \<open>k\<close> requests
  to that client, in the order of the queue. The client is not busy before any of the
  \<open>k\<close> hand-overs, each but the last returns, and the listener raises exactly when
  the last hand-over does, with what it raised. When the listener returns, the client is
  busy or the queue is empty.
\<close>

theorem drain_serves_queue_in_order:
  "(kQueue (fst (dispatch env p opts h)) = kQueue p \<or>
    kQueue (fst (dispatch env p opts h)) = kQueue p @ [(opts, h)]) \<and>
   (i < length (kClients p) \<longrightarrow>
     (\<exists>k \<le> length (kQueue p).
        kQueue (fst (onDrain env i p)) = drop k (kQueue p) \<and>
        kPending (fst (onDrain env i p)) = kPending p - int k \<and>
        dispatched (effects (fst (onDrain env i p))) =
          dispatched (effects p) @ map (\<lambda>it. (i, fst it, snd it)) (take k (kQueue p)) \<and>
        (\<forall>j<k. \<not> client_busy env (hand_over env (cstate (kClients p ! i)) (kQueue p) ! j)) \<and>
        (\<forall>j. Suc j < k \<longrightarrow>
           snd (client_dispatch env (hand_over env (cstate (kClients p ! i)) (kQueue p) ! j)
                  (fst (kQueue p ! j)) (snd (kQueue p ! j))) = None) \<and>
        cstate (kClients (fst (onDrain env i p)) ! i) =
          hand_over env (cstate (kClients p ! i)) (kQueue p) ! k \<and>
        snd (onDrain env i p) =
          (if 0 < k
           then (case snd (client_dispatch env
                             (hand_over env (cstate (kClients p ! i)) (kQueue p) ! (k - 1))
                             (fst (kQueue p ! (k - 1))) (snd (kQueue p ! (k - 1)))) of
                   None \<Rightarrow> RetUndefined
                 | Some e \<Rightarrow> Raised e)
           else RetUndefined) \<and>
        ((\<forall>e. snd (onDrain env i p) \<noteq> Raised e) \<longrightarrow>
           client_busy env (cstate (kClients (fst (onDrain env i p)) ! i)) \<or>
           kQueue (fst (onDrain env i p)) = [])))"
proof (intro conjI impI)
  from dispatch_queue [of env p opts h]
  show "kQueue (fst (dispatch env p opts h)) = kQueue p \<or>
        kQueue (fst (dispatch env p opts h)) = kQueue p @ [(opts, h)]"
    by blast
next
  assume i: "i < length (kClients p)"
  let ?c = "cstate (kClients p ! i)"
  let ?q = "kQueue p"
  let ?k = "served env ?c ?q"
  let ?l = "onDrain_loop env i p"
  let ?last = "snd (client_dispatch env (hand_over env ?c ?q ! (?k - 1))
                      (fst (?q ! (?k - 1))) (snd (?q ! (?k - 1))))"
  note s = onDrain_loop_served [OF i, of env]
  note o = onDrain_queue [of env i p]
  from s have s1: "kQueue (fst ?l) = drop ?k ?q" by (elim conjE)
  from s have s2: "kPending (fst ?l) = kPending p - int ?k" by (elim conjE)
  from s have s3: "effects (fst ?l) =
     effects p @ map (\<lambda>it. ClientDispatch i (fst it) (snd it)) (take ?k ?q)" by (elim conjE)
  from s have s4: "cstate (kClients (fst ?l) ! i) = hand_over env ?c ?q ! ?k" by (elim conjE)
  from s have s5: "snd ?l = (if 0 < ?k then ?last else None)" by (elim conjE)
  from o have o1: "kQueue (fst (onDrain env i p)) = kQueue (fst ?l)" by (elim conjE)
  from o have o2: "kPending (fst (onDrain env i p)) = kPending (fst ?l)" by (elim conjE)
  from o have o3: "kClients (fst (onDrain env i p)) = kClients (fst ?l)" by (elim conjE)
  from o have o4: "dispatched (effects (fst (onDrain env i p))) = dispatched (effects (fst ?l))"
    by (elim conjE)
  have r: "snd (onDrain env i p) =
      (if 0 < ?k then (case ?last of None \<Rightarrow> RetUndefined | Some e \<Rightarrow> Raised e)
       else RetUndefined)"
    unfolding onDrain_ret s5 by simp
  have a: "kQueue (fst (onDrain env i p)) = drop ?k ?q"
    unfolding o1 s1 ..
  have b: "kPending (fst (onDrain env i p)) = kPending p - int ?k"
    unfolding o2 s2 ..
  have c: "dispatched (effects (fst (onDrain env i p))) =
          dispatched (effects p) @ map (\<lambda>it. (i, fst it, snd it)) (take ?k ?q)"
    unfolding o4 s3 by (simp add: dispatched_append dispatched_map_ClientDispatch)
  have d: "\<forall>j<?k. \<not> client_busy env (hand_over env ?c ?q ! j)"
    by (simp add: served_idle)
  have e: "\<forall>j. Suc j < ?k \<longrightarrow>
           snd (client_dispatch env (hand_over env ?c ?q ! j) (fst (?q ! j)) (snd (?q ! j))) = None"
    by (simp add: served_returned)
  have f: "cstate (kClients (fst (onDrain env i p)) ! i) = hand_over env ?c ?q ! ?k"
    unfolding o3 s4 ..
  have g: "(\<forall>e. snd (onDrain env i p) \<noteq> Raised e) \<longrightarrow>
           client_busy env (cstate (kClients (fst (onDrain env i p)) ! i)) \<or>
           kQueue (fst (onDrain env i p)) = []"
  proof
    assume n: "\<forall>e. snd (onDrain env i p) \<noteq> Raised e"
    have "\<not> (0 < ?k \<and> (\<exists>e. ?last = Some e))"
    proof
      assume "0 < ?k \<and> (\<exists>e. ?last = Some e)"
      then obtain e where "0 < ?k" "?last = Some e" by blast
      with r have "snd (onDrain env i p) = Raised e" by simp
      with n show False by blast
    qed
    with served_stop [of env ?c ?q]
    have "client_busy env (hand_over env ?c ?q ! ?k) \<or> ?k = length ?q" by blast
    then show "client_busy env (cstate (kClients (fst (onDrain env i p)) ! i)) \<or>
           kQueue (fst (onDrain env i p)) = []"
      unfolding f a by auto
  qed
  from served_le [of env ?c ?q] a b c d e f r g
  show "\<exists>k \<le> length (kQueue p).
        kQueue (fst (onDrain env i p)) = drop k (kQueue p) \<and>
        kPending (fst (onDrain env i p)) = kPending p - int k \<and>
        dispatched (effects (fst (onDrain env i p))) =
          dispatched (effects p) @ map (\<lambda>it. (i, fst it, snd it)) (take k (kQueue p)) \<and>
        (\<forall>j<k. \<not> client_busy env (hand_over env (cstate (kClients p ! i)) (kQueue p) ! j)) \<and>
        (\<forall>j. Suc j < k \<longrightarrow>
           snd (client_dispatch env (hand_over env (cstate (kClients p ! i)) (kQueue p) ! j)
                  (fst (kQueue p ! j)) (snd (kQueue p ! j))) = None) \<and>
        cstate (kClients (fst (onDrain env i p)) ! i) =
          hand_over env (cstate (kClients p ! i)) (kQueue p) ! k \<and>
        snd (onDrain env i p) =
          (if 0 < k
           then (case snd (client_dispatch env
                             (hand_over env (cstate (kClients p ! i)) (kQueue p) ! (k - 1))
                             (fst (kQueue p ! (k - 1))) (snd (kQueue p ! (k - 1)))) of
                   None \<Rightarrow> RetUndefined
                 | Some e \<Rightarrow> Raised e)
           else RetUndefined) \<and>
        ((\<forall>e. snd (onDrain env i p) \<noteq> Raised e) \<longrightarrow>
           client_busy env (cstate (kClients (fst (onDrain env i p)) ! i)) \<or>
           kQueue (fst (onDrain env i p)) = [])"
    by (intro exI [of _ ?k] conjI)
qed

text \<open>
  C7, at a pool of one connection with the requests r2 and r3 queued, whose client has
  become idle: the drain hands r2 to the client, which is busy again, and r3 stays.
\<close>

theorem drain_serves_queue_in_order_witness:
  "0 < length (kClients pool_drainable) \<and>
   kQueue pool_drainable = [(''r2'', handler_of 2), (''r3'', handler_of 3)] \<and>
   kQueue (fst (onDrain serial_env 0 pool_drainable)) = [(''r3'', handler_of 3)] \<and>
   kPending (fst (onDrain serial_env 0 pool_drainable)) = 1 \<and>
   dispatched (effects (fst (onDrain serial_env 0 pool_drainable))) =
     dispatched (effects pool_drainable) @ [(0, ''r2'', handler_of 2)] \<and>
   client_busy serial_env (cstate (kClients (fst (onDrain serial_env 0 pool_drainable)) ! 0))"
proof -
  let ?P = pool_drainable
  have a: "0 < length (kClients ?P)"
    "kQueue ?P = [(''r2'', handler_of 2), (''r3'', handler_of 3)]"
    "kPending ?P = 2"
    by (simp_all add: pool_drainable_def eval_defs)
  have b: "kPending (fst (onDrain serial_env 0 ?P)) = 1"
    "snd (onDrain serial_env 0 ?P) = RetUndefined"
    by (simp_all add: pool_drainable_def eval_defs)
  from drain_serves_queue_in_order [of serial_env ?P "''r''" "handler_of 9" 0] a(1)
  obtain k where k: "k \<le> length (kQueue ?P)"
    "kQueue (fst (onDrain serial_env 0 ?P)) = drop k (kQueue ?P)"
    "kPending (fst (onDrain serial_env 0 ?P)) = kPending ?P - int k"
    "dispatched (effects (fst (onDrain serial_env 0 ?P))) =
       dispatched (effects ?P) @ map (\<lambda>it. (0, fst it, snd it)) (take k (kQueue ?P))"
    "(\<forall>e. snd (onDrain serial_env 0 ?P) \<noteq> Raised e) \<longrightarrow>
       client_busy serial_env (cstate (kClients (fst (onDrain serial_env 0 ?P)) ! 0)) \<or>
       kQueue (fst (onDrain serial_env 0 ?P)) = []"
    by blast
  from k(3) a(3) b(1) have k1: "k = 1" by simp
  with k(2,4) a(2) have c:
    "kQueue (fst (onDrain serial_env 0 ?P)) = [(''r3'', handler_of 3)]"
    "dispatched (effects (fst (onDrain serial_env 0 ?P))) =
       dispatched (effects ?P) @ [(0, ''r2'', handler_of 2)]"
    by simp_all
  from k(5) b(2) c(1)
  have d: "client_busy serial_env (cstate (kClients (fst (onDrain serial_env 0 ?P)) ! 0))"
    by simp
  from a b c d show ?thesis by blast
qed

end
